theory Spec2Isabelle
  imports Complex_Main "HOL-Library.Char_ord" "HOL-Library.List_Lexorder" "HOL-Library.AList"
begin

chapter \<open>Model\<close>

section \<open>Errors and arrays\<close>

text \<open>
  Python exceptions are values: a fallible operation returns \<open>error + 'a\<close>, with
  \<open>Inl\<close> the exception raised. A two-dimensional numpy array is a list of rows.
  float64 values are modelled as exact reals, except for the product that fixes the
  bootstrap sample size, which is rounded to float64 as the interpreter does.
\<close>

datatype error = StopIteration | IndexError | ValueError | KeyError | TypeError | RuntimeError

type_synonym matrix = "real list list"

text \<open>Runs a list of fallible steps; the first exception wins.\<close>

fun collect :: "(error + 'a) list \<Rightarrow> error + 'a list" where
  "collect [] = Inr []"
| "collect (Inl e # _) = Inl e"
| "collect (Inr x # rs) = (case collect rs of Inl e \<Rightarrow> Inl e | Inr xs \<Rightarrow> Inr (x # xs))"

section \<open>Raw counts to counts per million\<close>

text \<open>
  \<^verbatim>\<open>hierarchical_mapping/cell_by_gene/utils.py\<close>, \<^verbatim>\<open>convert_to_cpm\<close>.
  A cell-by-gene array is a list of rows (cells), each row a list of gene values.
  numpy's float64 values are modelled as exact reals.

  \<^verbatim>\<open>
    row_sums = np.sum(data, axis=1)
    denom = np.where(row_sums > 0.0, row_sums, 1.)
    cpm = data.transpose()/denom
    cpm = 1.0e6*cpm
    return cpm.transpose()
  \<close>
\<close>

definition row_sums :: "matrix \<Rightarrow> real list" where
  "row_sums data = map sum_list data"

definition cpm_denom :: "matrix \<Rightarrow> real list" where
  "cpm_denom data = map (\<lambda>s. if s > 0 then s else 1) (row_sums data)"

definition convert_to_cpm :: "matrix \<Rightarrow> matrix" where
  "convert_to_cpm data =
     map (\<lambda>(row, d). map (\<lambda>x. 1000000 * (x / d)) row) (zip data (cpm_denom data))"

definition scale_row :: "real \<Rightarrow> nat \<Rightarrow> matrix \<Rightarrow> matrix" where
  "scale_row k i data = data[i := map (\<lambda>x. k * x) (data ! i)]"

definition raw_counts :: "real list \<Rightarrow> bool" where
  "raw_counts row = list_all (\<lambda>v. 0 \<le> v) row"

section \<open>CSR row iterator\<close>

record csr_group =
  csr_data :: "real list"
  csr_indices :: "nat list"
  csr_indptr :: "nat list"

text \<open>
  Modelled from the spec: \<^verbatim>\<open>load_csr\<close> (module \<^verbatim>\<open>sparse_utils\<close>) is not among the sources.
  Following the description of the CSR layout, for each row \<open>r\<close> of the requested slab
  it reads \<open>indptr[r]\<close>..\<open>indptr[r + 1]\<close>, takes that slice of \<open>data\<close> and \<open>indices\<close> and
  scatters it into a zero-initialised dense row of \<open>n_cols\<close> entries. An index outside
  the arrays is an exception.
\<close>

fun scatter :: "real list \<Rightarrow> (nat \<times> real) list \<Rightarrow> error + real list" where
  "scatter buf [] = Inr buf"
| "scatter buf ((j, v) # es) =
     (if j < length buf then scatter (buf[j := v]) es else Inl IndexError)"

definition load_row :: "nat \<Rightarrow> csr_group \<Rightarrow> nat \<Rightarrow> error + real list" where
  "load_row n_cols f r =
     (if Suc r < length (csr_indptr f) then
        (let lo = csr_indptr f ! r; hi = csr_indptr f ! Suc r in
           if lo \<le> hi \<and> hi \<le> length (csr_data f) \<and> hi \<le> length (csr_indices f) then
             scatter (replicate n_cols 0)
               (zip (take (hi - lo) (drop lo (csr_indices f)))
                    (take (hi - lo) (drop lo (csr_data f))))
           else Inl ValueError)
      else Inl IndexError)"

definition load_csr :: "nat \<times> nat \<Rightarrow> nat \<Rightarrow> csr_group \<Rightarrow> error + matrix" where
  "load_csr row_spec n_cols f =
     collect (map (load_row n_cols f) [fst row_spec ..< snd row_spec])"

text \<open>
  \<^verbatim>\<open>anndata_iterator.py\<close>, class \<^verbatim>\<open>CSRRowIterator\<close>. The open file handle is the CSR group
  itself; \<open>None\<close> is the closed handle.

  \<^verbatim>\<open>
    def __next__(self):
        if self.r0 >= self.n_rows:
            if self.h5_handle is not None:
                self.h5_handle.close()
                self.h5_handle = None
            raise StopIteration
        r1 = min(self.n_rows, self.r0+self.row_chunk_size)
        chunk = load_csr(row_spec=(self.r0, r1), n_cols=self.n_cols, ...)
        old_r0 = self.r0
        self.r0 = r1
        return (chunk, old_r0, r1)
  \<close>
\<close>

record CSRRowIterator =
  h5_handle :: "csr_group option"
  row_chunk_size :: nat
  r0 :: nat
  n_rows :: nat
  n_cols :: nat

definition CSRRowIterator_init :: "csr_group \<Rightarrow> nat \<Rightarrow> nat \<times> nat \<Rightarrow> CSRRowIterator" where
  "CSRRowIterator_init h5 chunk array_shape =
     \<lparr>h5_handle = Some h5, row_chunk_size = chunk, r0 = 0,
      n_rows = fst array_shape, n_cols = snd array_shape\<rparr>"

definition CSRRowIterator_next ::
  "CSRRowIterator \<Rightarrow> (error + (matrix \<times> nat \<times> nat)) \<times> CSRRowIterator" where
  "CSRRowIterator_next self =
     (if r0 self \<ge> n_rows self then (Inl StopIteration, self\<lparr>h5_handle := None\<rparr>)
      else
        (let r1 = min (n_rows self) (r0 self + row_chunk_size self) in
           case h5_handle self of
             None \<Rightarrow> (Inl TypeError, self)
           | Some f \<Rightarrow>
               (case load_csr (r0 self, r1) (n_cols self) f of
                  Inl e \<Rightarrow> (Inl e, self)
                | Inr chunk \<Rightarrow> (Inr (chunk, r0 self, r1), self\<lparr>r0 := r1\<rparr>))))"

text \<open>
  Draining the iterator, as a \<^verbatim>\<open>for\<close> loop does: call \<^verbatim>\<open>__next__\<close> until it raises.
  \<^verbatim>\<open>StopIteration\<close> ends the loop with the triples collected so far; any other exception
  is passed on. The loop need not end (a chunk size of 0 never advances), so the result is
  an option, \<open>None\<close> for a loop that runs forever.
\<close>

partial_function (option) iterate ::
  "CSRRowIterator \<Rightarrow> (matrix \<times> nat \<times> nat) list \<Rightarrow>
     ((error + (matrix \<times> nat \<times> nat) list) \<times> CSRRowIterator) option" where
  "iterate it acc =
     (case CSRRowIterator_next it of
        (Inl e, it') \<Rightarrow> (if e = StopIteration then Some (Inr (rev acc), it') else Some (Inl e, it'))
      | (Inr t, it') \<Rightarrow> iterate it' (t # acc))"

declare iterate.simps [code]

text \<open>
  A well-formed CSR group for an array of the given shape, and what it is for a list of
  row ranges to cover \<open>[a, n)\<close> in order without gap or overlap.
\<close>

definition csr_wf :: "nat \<times> nat \<Rightarrow> csr_group \<Rightarrow> bool" where
  "csr_wf array_shape f \<longleftrightarrow>
     length (csr_indptr f) = Suc (fst array_shape) \<and>
     sorted (csr_indptr f) \<and>
     last (csr_indptr f) \<le> length (csr_data f) \<and>
     length (csr_indices f) = length (csr_data f) \<and>
     list_all (\<lambda>j. j < snd array_shape) (csr_indices f)"

fun covers :: "nat \<Rightarrow> nat \<Rightarrow> (nat \<times> nat) list \<Rightarrow> bool" where
  "covers a n [] = (a = n)"
| "covers a n ((lo, hi) # rest) = (lo = a \<and> lo < hi \<and> hi \<le> n \<and> covers hi n rest)"

definition dense_shape :: "nat \<Rightarrow> matrix \<times> nat \<times> nat \<Rightarrow> bool" where
  "dense_shape c t =
     (case t of (chunk, lo, hi) \<Rightarrow>
        length chunk = hi - lo \<and> list_all (\<lambda>row. length row = c) chunk)"

section \<open>Bootstrap voting\<close>

text \<open>
  \<^verbatim>\<open>np.round\<close> rounds to the nearest integer, a half to the even neighbour.
\<close>

definition np_round :: "real \<Rightarrow> int" where
  "np_round x =
     (let f = \<lfloor>x\<rfloor>; d = x - of_int f in
        if d < 1 / 2 then f else if 1 / 2 < d then f + 1 else if even f then f else f + 1)"

text \<open>
  The product \<^verbatim>\<open>bootstrap_factor*n_markers\<close> is a float64 product: \<^verbatim>\<open>n_markers\<close> is
  converted to float64 and the exact product is rounded to the nearest float64, ties to
  the even significand, before \<^verbatim>\<open>np.round\<close> sees it. \<open>float64 x\<close> is that rounding for
  a real \<open>x\<close> in the finite range: 53 significant bits, the unit in the last place
  \<open>2 ^ (e - 52)\<close> for \<open>2 ^ e \<le> \<bar>x\<bar> < 2 ^ (e + 1)\<close>, with \<open>e\<close> no smaller than \<open>-1022\<close>
  (subnormal numbers). Overflow to infinity is outside the model; the products below are
  bounded by \<^verbatim>\<open>n_markers\<close>.
\<close>

definition float64_exponent :: "real \<Rightarrow> int" where
  "float64_exponent x = max \<lfloor>log 2 \<bar>x\<bar>\<rfloor> (- 1022)"

definition float64_ulp :: "real \<Rightarrow> real" where
  "float64_ulp x = power_int 2 (float64_exponent x - 52)"

definition float64 :: "real \<Rightarrow> real" where
  "float64 x = (if x = 0 then 0 else of_int (np_round (x / float64_ulp x)) * float64_ulp x)"

text \<open>
  \<^verbatim>\<open>election.py\<close>, \<^verbatim>\<open>tally_votes\<close>:

  \<^verbatim>\<open>
    n_markers = query_gene_data.shape[1]
    marker_idx = np.arange(n_markers)
    n_bootstrap = np.round(bootstrap_factor*n_markers).astype(int)
  \<close>
\<close>

definition bootstrap_sample_size :: "real \<Rightarrow> nat \<Rightarrow> int" where
  "bootstrap_sample_size bootstrap_factor n_markers =
     np_round (float64 (bootstrap_factor * float64 (real n_markers)))"

text \<open>
  The random generator is a state \<open>'g\<close> threaded through the calls.
  \<^verbatim>\<open>rng.choice(a, size, replace=False)\<close> raises \<^verbatim>\<open>ValueError\<close> for a size that is negative
  or larger than the population; otherwise the drawn sample is left to a parameter
  \<open>sample\<close>, of which the properties below assume only numpy's contract (\<open>sampler_ok\<close>).
\<close>

type_synonym 'g sampler = "'g \<Rightarrow> nat list \<Rightarrow> nat \<Rightarrow> nat list \<times> 'g"

definition rng_choice ::
  "'g sampler \<Rightarrow> 'g \<Rightarrow> nat list \<Rightarrow> int \<Rightarrow> (error + nat list) \<times> 'g" where
  "rng_choice sample g a sz =
     (if sz < 0 \<or> int (length a) < sz then (Inl ValueError, g)
      else (case sample g a (nat sz) of (xs, g') \<Rightarrow> (Inr xs, g')))"

text \<open>
  \<^verbatim>\<open>query_gene_data.shape[1]\<close> and the column selection \<^verbatim>\<open>array[:, chosen_idx]\<close>, which
  raises \<^verbatim>\<open>IndexError\<close> for a column that is out of range.
\<close>

definition shape1 :: "matrix \<Rightarrow> nat" where
  "shape1 m = (case m of [] \<Rightarrow> 0 | row # _ \<Rightarrow> length row)"

definition take_cols :: "nat list \<Rightarrow> matrix \<Rightarrow> error + matrix" where
  "take_cols idx m =
     (if list_all (\<lambda>row. list_all (\<lambda>j. j < length row) idx) m
      then Inr (map (\<lambda>row. map (\<lambda>j. row ! j) idx) m)
      else Inl IndexError)"

text \<open>
  \<^verbatim>\<open>distance_utils.correlation_nearest_neighbors\<close> is not among the sources; the election
  functions take it as a parameter \<open>cnn\<close>, returning for every query row the index of its
  nearest reference row and the correlation with it.

  \<^verbatim>\<open>
    for i_iteration in range(bootstrap_iteration):
        chosen_idx = rng.choice(marker_idx, n_bootstrap, replace=False)
        chosen_idx = np.sort(chosen_idx)
        bootstrap_query = query_gene_data[:, chosen_idx]
        bootstrap_reference = reference_gene_data[:, chosen_idx]
        (these_neighbors,
         these_corr) = distance_utils.correlation_nearest_neighbors(
            baseline_array=bootstrap_reference,
            query_array=bootstrap_query, ...)
        neighbors.append(these_neighbors)
        corr.append(these_corr)
  \<close>
\<close>

type_synonym neighbors = "matrix \<Rightarrow> matrix \<Rightarrow> error + (nat list \<times> real list)"

definition draw_markers ::
  "'g sampler \<Rightarrow> 'g \<Rightarrow> nat \<Rightarrow> int \<Rightarrow> (error + nat list) \<times> 'g" where
  "draw_markers sample g n_markers n_bootstrap =
     (case rng_choice sample g [0..<n_markers] n_bootstrap of
        (Inl e, g') \<Rightarrow> (Inl e, g')
      | (Inr drawn, g') \<Rightarrow> (Inr (sort drawn), g'))"

fun bootstrap_loop ::
  "neighbors \<Rightarrow> 'g sampler \<Rightarrow> matrix \<Rightarrow> matrix \<Rightarrow> nat \<Rightarrow> int \<Rightarrow> nat \<Rightarrow> 'g \<Rightarrow>
     (error + (nat list \<times> real list) list) \<times> 'g" where
  "bootstrap_loop cnn sample query reference n_markers n_bootstrap 0 g = (Inr [], g)"
| "bootstrap_loop cnn sample query reference n_markers n_bootstrap (Suc k) g =
     (case draw_markers sample g n_markers n_bootstrap of
        (Inl e, g') \<Rightarrow> (Inl e, g')
      | (Inr chosen_idx, g') \<Rightarrow>
          (case take_cols chosen_idx query of
             Inl e \<Rightarrow> (Inl e, g')
           | Inr bootstrap_query \<Rightarrow>
               (case take_cols chosen_idx reference of
                  Inl e \<Rightarrow> (Inl e, g')
                | Inr bootstrap_reference \<Rightarrow>
                    (case cnn bootstrap_reference bootstrap_query of
                       Inl e \<Rightarrow> (Inl e, g')
                     | Inr these \<Rightarrow>
                         (case bootstrap_loop cnn sample query reference
                                 n_markers n_bootstrap k g' of
                            (Inl e, g'') \<Rightarrow> (Inl e, g'')
                          | (Inr rest, g'') \<Rightarrow> (Inr (these # rest), g''))))))"

text \<open>
  The tally. \<^verbatim>\<open>votes\<close> has the unsigned integer dtype returned by
  \<^verbatim>\<open>choose_int_dtype((0, bootstrap_iteration))\<close>, a function that is not among the sources:
  it is a parameter giving the number of bits, and a vote count wraps around modulo
  \<open>2 ^ bits\<close>. An index outside the arrays is an \<^verbatim>\<open>IndexError\<close>.

  \<^verbatim>\<open>
    for nearest_neighbors, corr_values in zip(neighbors, corr):
        votes[query_idx, nearest_neighbors] += 1
        corr_sum[query_idx, nearest_neighbors] += corr_values
    return votes, corr_sum
  \<close>
\<close>

definition cast_votes :: "nat \<Rightarrow> nat list list \<Rightarrow> nat list \<Rightarrow> error + nat list list" where
  "cast_votes bits votes nearest_neighbors =
     (if length nearest_neighbors \<noteq> length votes then Inl IndexError
      else collect (map (\<lambda>(row, j).
             if j < length row then Inr (row[j := (row ! j + 1) mod 2 ^ bits])
             else Inl IndexError) (zip votes nearest_neighbors)))"

definition add_corr :: "matrix \<Rightarrow> nat list \<Rightarrow> real list \<Rightarrow> error + matrix" where
  "add_corr corr_sum nearest_neighbors corr_values =
     (if length nearest_neighbors \<noteq> length corr_sum \<or> length corr_values \<noteq> length corr_sum
      then Inl IndexError
      else collect (map (\<lambda>(row, j, c).
             if j < length row then Inr (row[j := row ! j + c])
             else Inl IndexError) (zip corr_sum (zip nearest_neighbors corr_values))))"

fun tally_loop ::
  "nat \<Rightarrow> nat list list \<Rightarrow> matrix \<Rightarrow> (nat list \<times> real list) list \<Rightarrow>
     error + (nat list list \<times> matrix)" where
  "tally_loop bits votes corr_sum [] = Inr (votes, corr_sum)"
| "tally_loop bits votes corr_sum ((nearest_neighbors, corr_values) # rest) =
     (case cast_votes bits votes nearest_neighbors of
        Inl e \<Rightarrow> Inl e
      | Inr votes' \<Rightarrow>
          (case add_corr corr_sum nearest_neighbors corr_values of
             Inl e \<Rightarrow> Inl e
           | Inr corr_sum' \<Rightarrow> tally_loop bits votes' corr_sum' rest))"

definition tally_votes ::
  "neighbors \<Rightarrow> (int \<times> int \<Rightarrow> nat) \<Rightarrow> 'g sampler \<Rightarrow> matrix \<Rightarrow> matrix \<Rightarrow> real \<Rightarrow> nat \<Rightarrow> 'g \<Rightarrow>
     (error + (nat list list \<times> matrix)) \<times> 'g" where
  "tally_votes cnn choose_int_dtype sample query_gene_data reference_gene_data
       bootstrap_factor bootstrap_iteration rng =
     (let n_markers = shape1 query_gene_data;
          n_bootstrap = bootstrap_sample_size bootstrap_factor n_markers;
          vote_dtype = choose_int_dtype (0, int bootstrap_iteration);
          votes = replicate (length query_gene_data) (replicate (length reference_gene_data) 0);
          corr_sum = replicate (length query_gene_data) (replicate (length reference_gene_data) 0)
      in case bootstrap_loop cnn sample query_gene_data reference_gene_data
                n_markers n_bootstrap bootstrap_iteration rng of
           (Inl e, rng') \<Rightarrow> (Inl e, rng')
         | (Inr results, rng') \<Rightarrow> (tally_loop vote_dtype votes corr_sum results, rng'))"

text \<open>
  \<^verbatim>\<open>election.py\<close>, \<^verbatim>\<open>choose_node\<close>. \<^verbatim>\<open>np.argmax\<close> returns the first index holding the maximum
  and raises \<^verbatim>\<open>ValueError\<close> on an empty row. A float division by zero gives nan or inf
  with a warning, not an exception: that is the value \<open>None\<close>.

  \<^verbatim>\<open>
    chosen_type = np.argmax(votes, axis=1)
    idx_array = np.arange(votes.shape[0])
    result = [reference_types[ii] for ii in chosen_type]
    n_votes = votes[idx_array, chosen_type]
    vote_fractions = n_votes / bootstrap_iteration
    avg_corr = corr_sum[idx_array, chosen_type] / n_votes
    return (np.array(result), vote_fractions, avg_corr)
  \<close>
\<close>

fun argmax_scan :: "'a::linorder \<Rightarrow> nat \<Rightarrow> nat \<Rightarrow> 'a list \<Rightarrow> nat" where
  "argmax_scan best bi i [] = bi"
| "argmax_scan best bi i (x # xs) =
     (if best < x then argmax_scan x i (Suc i) xs else argmax_scan best bi (Suc i) xs)"

definition np_argmax :: "'a::linorder list \<Rightarrow> error + nat" where
  "np_argmax xs = (case xs of [] \<Rightarrow> Inl ValueError | x # rest \<Rightarrow> Inr (argmax_scan x 0 1 rest))"

definition true_divide :: "real \<Rightarrow> real \<Rightarrow> real option" where
  "true_divide x y = (if y = 0 then None else Some (x / y))"

definition getitem :: "'a list \<Rightarrow> nat \<Rightarrow> error + 'a" where
  "getitem xs i = (if i < length xs then Inr (xs ! i) else Inl IndexError)"

definition choose_from_tally ::
  "nat list list \<Rightarrow> matrix \<Rightarrow> string list \<Rightarrow> nat \<Rightarrow>
     error + (string list \<times> real option list \<times> real option list)" where
  "choose_from_tally votes corr_sum reference_types bootstrap_iteration =
     (case collect (map np_argmax votes) of
        Inl e \<Rightarrow> Inl e
      | Inr chosen_type \<Rightarrow>
          (case collect (map (getitem reference_types) chosen_type) of
             Inl e \<Rightarrow> Inl e
           | Inr result \<Rightarrow>
               (let n_votes = map (\<lambda>(row, ii). row ! ii) (zip votes chosen_type);
                    vote_fractions = map (\<lambda>v. true_divide (real v) (real bootstrap_iteration)) n_votes;
                    avg_corr = map (\<lambda>((row, ii), v). true_divide (row ! ii) (real v))
                                  (zip (zip corr_sum chosen_type) n_votes)
                in Inr (result, vote_fractions, avg_corr))))"

definition choose_node ::
  "neighbors \<Rightarrow> (int \<times> int \<Rightarrow> nat) \<Rightarrow> 'g sampler \<Rightarrow> matrix \<Rightarrow> matrix \<Rightarrow> string list \<Rightarrow>
     real \<Rightarrow> nat \<Rightarrow> 'g \<Rightarrow>
     (error + (string list \<times> real option list \<times> real option list)) \<times> 'g" where
  "choose_node cnn choose_int_dtype sample query_gene_data reference_gene_data reference_types
       bootstrap_factor bootstrap_iteration rng =
     (case tally_votes cnn choose_int_dtype sample query_gene_data reference_gene_data
             bootstrap_factor bootstrap_iteration rng of
        (Inl e, rng') \<Rightarrow> (Inl e, rng')
      | (Inr (votes, corr_sum), rng') \<Rightarrow>
          (choose_from_tally votes corr_sum reference_types bootstrap_iteration, rng'))"

text \<open>
  Modelled from the spec: a nearest-neighbour function to run the election on concrete
  data. The correlation is Pearson's, with zero-ddof mean and standard deviation per
  row; a row of zero variance has correlation 0 with everything; the neighbour is the
  first reference row of maximal correlation.
\<close>

definition mean :: "real list \<Rightarrow> real" where
  "mean xs = sum_list xs / real (length xs)"

definition std :: "real list \<Rightarrow> real" where
  "std xs = sqrt (sum_list (map (\<lambda>v. (v - mean xs) * (v - mean xs)) xs) / real (length xs))"

definition pearson :: "real list \<Rightarrow> real list \<Rightarrow> real" where
  "pearson x y =
     (if std x = 0 \<or> std y = 0 then 0
      else (sum_list (map (\<lambda>(a, b). (a - mean x) * (b - mean y)) (zip x y)) / real (length x))
           / (std x * std y))"

fun max_list :: "real \<Rightarrow> real list \<Rightarrow> real" where
  "max_list best [] = best"
| "max_list best (x # xs) = max_list (max best x) xs"

definition correlation_nearest_neighbors :: neighbors where
  "correlation_nearest_neighbors baseline_array query_array =
     (case baseline_array of
        [] \<Rightarrow> Inl ValueError
      | b # bs \<Rightarrow>
          Inr (map (\<lambda>q. argmax_scan (pearson q b) 0 1 (map (pearson q) bs)) query_array,
               map (\<lambda>q. max_list (pearson q b) (map (pearson q) bs)) query_array))"

text \<open>
  A deterministic sampler for concrete runs: the first \<open>sz\<close> elements of the population
  rotated by the generator state, which is then advanced.
\<close>

definition rotating_sample :: "nat sampler" where
  "rotating_sample g a sz = (take sz (rotate g a), Suc g)"

text \<open>
  Contracts of the parameters: a sample without replacement has the requested size, no
  repetition and only elements of the population; a nearest-neighbour function returns,
  for a non-empty reference, one valid reference row index and one correlation per query
  row.
\<close>

definition sampler_ok :: "'g sampler \<Rightarrow> bool" where
  "sampler_ok sample \<longleftrightarrow>
     (\<forall>g a m. m \<le> length a \<longrightarrow> distinct a \<longrightarrow>
        length (fst (sample g a m)) = m \<and> distinct (fst (sample g a m)) \<and>
        set (fst (sample g a m)) \<subseteq> set a)"

definition neighbors_ok :: "neighbors \<Rightarrow> bool" where
  "neighbors_ok cnn \<longleftrightarrow>
     (\<forall>baseline query. baseline \<noteq> [] \<longrightarrow>
        (\<exists>nn cc. cnn baseline query = Inr (nn, cc) \<and>
           length nn = length query \<and> length cc = length query \<and>
           list_all (\<lambda>j. j < length baseline) nn))"

definition n_columns :: "nat \<Rightarrow> matrix \<Rightarrow> bool" where
  "n_columns n m = list_all (\<lambda>row. length row = n) m"

text \<open>Concrete data and auxiliary predicates used in the properties.\<close>

definition demo_csr :: csr_group where
  "demo_csr = \<lparr>csr_data = [1, 2, 3], csr_indices = [0, 1, 1], csr_indptr = [0, 1, 2, 3]\<rparr>"

definition ballots_ok :: "nat \<Rightarrow> nat \<Rightarrow> (nat list \<times> real list) \<Rightarrow> bool" where
  "ballots_ok nq nr b \<longleftrightarrow>
     length (fst b) = nq \<and> length (snd b) = nq \<and> list_all (\<lambda>j. j < nr) (fst b)"

definition votes_ok :: "nat \<Rightarrow> nat \<Rightarrow> nat list \<Rightarrow> bool" where
  "votes_ok nr s row \<longleftrightarrow> length row = nr \<and> sum_list row = s"

definition uint8 :: "int \<times> int \<Rightarrow> nat" where
  "uint8 output_range = 8"

definition demo_query :: matrix where
  "demo_query = [[0, 1, 1, 0]]"

definition demo_reference :: matrix where
  "demo_reference = [[0, 0, 1, 0], [2, 1, 1, 0]]"

definition demo_reference2 :: matrix where
  "demo_reference2 = [[0, 0, 1, 0], [0, 1, 1, 0]]"

section \<open>Reference rows for a parent node\<close>

text \<open>
  The taxonomy tree is a dict with the key \<^verbatim>\<open>hierarchy\<close>, the list of level names from
  the root down, and one key per level, mapping each node of the level to the list of
  its children at the next level (for the leaf level, to the list of its rows in the
  reference data). Dicts are association lists in insertion order. A parent node is
  \<^verbatim>\<open>None\<close> (the root) or a pair \<^verbatim>\<open>(level, node)\<close>.
\<close>

datatype members = Children "string list" | Rows "nat list"

record taxonomy_tree =
  hierarchy :: "string list"
  levels :: "(string \<times> (string \<times> members) list) list"

type_synonym parent_node = "(string \<times> string) option"

text \<open>
  Modelled from the spec: \<^verbatim>\<open>convert_tree_to_leaves\<close> (module \<^verbatim>\<open>taxonomy_utils\<close>) is not
  among the sources. It maps a node of a level to the list of the leaf-level nodes that
  descend from it; a leaf node is its own only leaf. An unknown level or node is a
  \<^verbatim>\<open>KeyError\<close>.
\<close>

fun leaves_of :: "taxonomy_tree \<Rightarrow> string list \<Rightarrow> string \<Rightarrow> string list" where
  "leaves_of tree [] node = []"
| "leaves_of tree [leaf_level] node = [node]"
| "leaves_of tree (level # below # rest) node =
     (case map_of (levels tree) level of
        None \<Rightarrow> []
      | Some nodes \<Rightarrow>
          (case map_of nodes node of
             Some (Children cs) \<Rightarrow> concat (map (leaves_of tree (below # rest)) cs)
           | _ \<Rightarrow> []))"

definition convert_tree_to_leaves ::
  "taxonomy_tree \<Rightarrow> string \<Rightarrow> string \<Rightarrow> error + string list" where
  "convert_tree_to_leaves tree level node =
     (case map_of (levels tree) level of
        None \<Rightarrow> Inl KeyError
      | Some nodes \<Rightarrow>
          (if node \<in> fst ` set nodes
           then Inr (leaves_of tree (dropWhile (\<lambda>l. l \<noteq> level) (hierarchy tree)) node)
           else Inl KeyError))"

text \<open>
  \<^verbatim>\<open>matching.py\<close>, \<^verbatim>\<open>assemble_query_data\<close>: the children of the parent node and their level.
  A key that is missing is a \<^verbatim>\<open>KeyError\<close>, a parent at the last level an \<^verbatim>\<open>IndexError\<close>.

  \<^verbatim>\<open>
    tree_as_leaves = convert_tree_to_leaves(taxonomy_tree)
    hierarchy = taxonomy_tree['hierarchy']
    level_to_idx = {level: idx for idx, level in enumerate(hierarchy)}
    if parent_node is None:
        parent_grp = 'None'
        immediate_children = list(taxonomy_tree[hierarchy[0]].keys())
        child_level = hierarchy[0]
    else:
        parent_grp = f"{parent_node[0]}/{parent_node[1]}"
        immediate_children = list(
            taxonomy_tree[parent_node[0]][parent_node[1]])
        child_level = hierarchy[level_to_idx[parent_node[0]]+1]
  \<close>
\<close>

definition immediate_children_of ::
  "taxonomy_tree \<Rightarrow> parent_node \<Rightarrow> error + (string list \<times> string)" where
  "immediate_children_of tree parent_node =
     (case parent_node of
        None \<Rightarrow>
          (case hierarchy tree of
             [] \<Rightarrow> Inl IndexError
           | level0 # _ \<Rightarrow>
               (case map_of (levels tree) level0 of
                  None \<Rightarrow> Inl KeyError
                | Some nodes \<Rightarrow> Inr (map fst nodes, level0)))
      | Some (level, node) \<Rightarrow>
          (case map_of (levels tree) level of
             None \<Rightarrow> Inl KeyError
           | Some nodes \<Rightarrow>
               (case map_of nodes node of
                  None \<Rightarrow> Inl KeyError
                | Some ms \<Rightarrow>
                    (case dropWhile (\<lambda>l. l \<noteq> level) (rev (hierarchy tree)) of
                       [] \<Rightarrow> Inl KeyError
                     | _ # _ \<Rightarrow>
                         (let idx = length (hierarchy tree) - 1
                                      - length (takeWhile (\<lambda>l. l \<noteq> level) (rev (hierarchy tree)))
                          in if Suc idx < length (hierarchy tree)
                             then (case ms of
                                     Children cs \<Rightarrow> Inr (cs, hierarchy tree ! Suc idx)
                                   | Rows rs \<Rightarrow>
                                       (if rs = [] then Inr ([], hierarchy tree ! Suc idx)
                                        else Inl KeyError))
                             else Inl IndexError)))))"

text \<open>
  One reference row per leaf: \<^verbatim>\<open>leaf_to_type\<close> maps every leaf under the parent to the
  immediate child it descends from, the rows follow the sorted leaves, and each row is
  the mean profile of its leaf at the reference markers of the parent. The marker cache
  file is a map from the parent node to its reference and query marker indices.

  \<^verbatim>\<open>
    immediate_children.sort()
    leaf_to_type = dict()
    for child in immediate_children:
        for leaf in tree_as_leaves[child_level][child]:
            leaf_to_type[leaf] = child
    with h5py.File(marker_cache_path, 'r', swmr=True) as in_file:
        reference_markers = in_file[parent_grp]['reference'][()]
        query_markers = in_file[parent_grp]['query'][()]
    query_data = full_query_data[:, query_markers]
    n_reference = len(leaf_to_type)
    reference_data = np.zeros((n_reference, len(reference_markers)),
                              dtype=float)
    reference_types = []
    children = list(leaf_to_type.keys())
    children.sort()
    for ii, child in enumerate(children):
        reference_types.append(leaf_to_type[child])
        this_mu = mean_profile_lookup[child]
        reference_data[ii, :] = this_mu[reference_markers]
  \<close>
\<close>

definition fill ::
  "(string \<times> string list) list \<Rightarrow> (string \<times> string) list \<Rightarrow> (string \<times> string) list" where
  "fill child_leaves d =
     fold (\<lambda>(child, leaves) d. fold (\<lambda>leaf d'. AList.update leaf child d') leaves d)
       child_leaves d"

definition leaf_to_type_of :: "(string \<times> string list) list \<Rightarrow> (string \<times> string) list" where
  "leaf_to_type_of child_leaves = fill child_leaves []"

definition fancy_index :: "'a list \<Rightarrow> nat list \<Rightarrow> error + 'a list" where
  "fancy_index xs idx =
     (if list_all (\<lambda>j. j < length xs) idx then Inr (map (\<lambda>j. xs ! j) idx) else Inl IndexError)"

record query_data_dict =
  query_data_item :: matrix
  reference_data_item :: matrix
  reference_types_item :: "string list"

definition assemble_query_data ::
  "matrix \<Rightarrow> (string \<rightharpoonup> real list) \<Rightarrow> taxonomy_tree \<Rightarrow>
     (parent_node \<rightharpoonup> nat list \<times> nat list) \<Rightarrow> parent_node \<Rightarrow> error + query_data_dict" where
  "assemble_query_data full_query_data mean_profile_lookup taxonomy_tree marker_cache parent_node =
     (case immediate_children_of taxonomy_tree parent_node of
        Inl e \<Rightarrow> Inl e
      | Inr (unsorted_children, child_level) \<Rightarrow>
          (let immediate_children = sort unsorted_children in
           case collect (map (\<lambda>child.
                    case convert_tree_to_leaves taxonomy_tree child_level child of
                      Inl e \<Rightarrow> Inl e
                    | Inr leaves \<Rightarrow> Inr (child, leaves)) immediate_children) of
             Inl e \<Rightarrow> Inl e
           | Inr child_leaves \<Rightarrow>
               (let leaf_to_type = leaf_to_type_of child_leaves in
                case marker_cache parent_node of
                  None \<Rightarrow> Inl KeyError
                | Some (reference_markers, query_markers) \<Rightarrow>
                    (case take_cols query_markers full_query_data of
                       Inl e \<Rightarrow> Inl e
                     | Inr qd \<Rightarrow>
                         (let children = sort (map fst leaf_to_type) in
                          case collect (map (\<lambda>child.
                                   case mean_profile_lookup child of
                                     None \<Rightarrow> Inl KeyError
                                   | Some this_mu \<Rightarrow> fancy_index this_mu reference_markers)
                                 children) of
                            Inl e \<Rightarrow> Inl e
                          | Inr rd \<Rightarrow>
                              Inr \<lparr>query_data_item = qd, reference_data_item = rd,
                                   reference_types_item =
                                     map (\<lambda>child. the (map_of leaf_to_type child)) children\<rparr>)))))"

text \<open>
  The tree of the repository's test of \<^verbatim>\<open>assemble_query_data\<close>, with a mean profile
  for the leaves used below and the marker cache of two parents.
\<close>

definition tree_fixture :: taxonomy_tree where
  "tree_fixture =
     \<lparr>hierarchy = [''class'', ''subclass'', ''cluster''],
      levels =
        [(''class'',
            [(''A'', Children [''bb'', ''cc'']),
             (''B'', Children [''aa'', ''dd'', ''ee'']),
             (''C'', Children [''ff''])]),
         (''subclass'',
            [(''aa'', Children [''1'', ''3'', ''4'']),
             (''bb'', Children [''2'']),
             (''cc'', Children [''0'', ''5'', ''6'']),
             (''dd'', Children [''8'']),
             (''ee'', Children [''7'', ''9'']),
             (''ff'', Children [''10'', ''11'', ''12''])]),
         (''cluster'',
            [(''0'', Rows [0, 1, 2]), (''1'', Rows [3, 5]), (''2'', Rows [4, 6, 7]),
             (''3'', Rows [8, 11]), (''4'', Rows [9, 12]), (''5'', Rows [10, 13]),
             (''6'', Rows [14]), (''7'', Rows [15, 16, 18]), (''8'', Rows [17, 20]),
             (''9'', Rows [19, 21, 22]), (''10'', Rows [23, 24]), (''11'', Rows [25]),
             (''12'', Rows [26, 27])])]\<rparr>"

definition mean_lookup_fixture :: "string \<rightharpoonup> real list" where
  "mean_lookup_fixture =
     [''0'' \<mapsto> [0, 5, 0], ''1'' \<mapsto> [1, 10, 0], ''3'' \<mapsto> [3, 30, 0],
      ''4'' \<mapsto> [4, 40, 0], ''5'' \<mapsto> [5, 50, 0], ''6'' \<mapsto> [6, 60, 0],
      ''7'' \<mapsto> [7, 70, 0], ''8'' \<mapsto> [8, 80, 0], ''9'' \<mapsto> [9, 90, 0]]"

definition marker_cache_fixture :: "parent_node \<rightharpoonup> nat list \<times> nat list" where
  "marker_cache_fixture =
     [Some (''class'', ''B'') \<mapsto> ([1, 0], [0, 2]),
      Some (''subclass'', ''cc'') \<mapsto> ([0, 1], [1])]"

definition subclass_cc_result :: query_data_dict where
  "subclass_cc_result =
     \<lparr>query_data_item = [[6]],
      reference_data_item = [[0, 5], [5, 50], [6, 60]],
      reference_types_item = [''0'', ''5'', ''6'']\<rparr>"

section \<open>Hierarchical assignment\<close>


definition children :: "taxonomy_tree \<Rightarrow> parent_node \<Rightarrow> error + members" where
  "children tree parent =
     (case parent of
        None \<Rightarrow>
          (case hierarchy tree of
             [] \<Rightarrow> Inl IndexError
           | level0 # _ \<Rightarrow>
               (case map_of (levels tree) level0 of
                  None \<Rightarrow> Inl KeyError
                | Some nodes \<Rightarrow> Inr (Children (map fst nodes))))
      | Some (level, node) \<Rightarrow>
          (case map_of (levels tree) level of
             None \<Rightarrow> Inl RuntimeError
           | Some nodes \<Rightarrow>
               (case map_of nodes node of
                  None \<Rightarrow> Inl RuntimeError
                | Some ms \<Rightarrow> Inr ms)))"


text \<open>
  The result for one cell is a dict from the level names to a record of the assignment,
  or to \<^verbatim>\<open>None\<close> as long as the level has not been assigned.
\<close>

record cell_assignment =
  assignment_item :: string
  bootstrapping_probability_item :: "real option"
  avg_correlation_item :: "real option"

type_synonym cell_result = "string \<rightharpoonup> cell_assignment"










fun store_results ::
  "string \<Rightarrow> (nat \<times> string \<times> real option \<times> real option) list \<Rightarrow> cell_result list \<Rightarrow>
     error + cell_result list" where
  "store_results child_level [] res = Inr res"
| "store_results child_level ((i_cell, assigned_type, prob, corr) # rest) res =
     (if i_cell < length res
      then store_results child_level rest
             (res[i_cell := (res ! i_cell)(child_level \<mapsto>
                \<lparr>assignment_item = assigned_type,
                 bootstrapping_probability_item = prob,
                 avg_correlation_item = corr\<rparr>)])
      else Inl IndexError)"


























chapter \<open>Properties\<close>

section \<open>Properties of the CPM conversion\<close>

lemma convert_to_cpm_length: "length (convert_to_cpm data) = length data"
  by (simp add: convert_to_cpm_def cpm_denom_def row_sums_def)

lemma convert_to_cpm_nth:
  assumes "i < length data"
  shows "convert_to_cpm data ! i =
         map (\<lambda>x. 1000000 * (x / (if sum_list (data ! i) > 0 then sum_list (data ! i) else 1)))
             (data ! i)"
  using assms by (simp add: convert_to_cpm_def cpm_denom_def row_sums_def)

lemma sum_list_scale: "sum_list (map (\<lambda>x. k * x) row) = k * sum_list (row :: real list)"
  by (induction row) (simp_all add: algebra_simps)

lemma raw_counts_sum_nonneg: "raw_counts row \<Longrightarrow> 0 \<le> sum_list row"
  by (induction row) (simp_all add: raw_counts_def)

lemma raw_counts_sum_zero:
  "raw_counts row \<Longrightarrow> sum_list row = 0 \<Longrightarrow> v \<in> set row \<Longrightarrow> v = 0"
proof (induction row)
  case Nil
  then show ?case by simp
next
  case (Cons a row)
  have a0: "0 \<le> a" and rc: "raw_counts row"
    using Cons.prems(1) by (simp_all add: raw_counts_def)
  have s0: "0 \<le> sum_list row" by (rule raw_counts_sum_nonneg [OF rc])
  have "a + sum_list row = 0" using Cons.prems(2) by simp
  with a0 s0 have "a = 0" and "sum_list row = 0" by linarith+
  with Cons.IH rc Cons.prems(3) show ?case by auto
qed

lemma scale_row_one: "i < length data \<Longrightarrow> scale_row 1 i data = data"
  by (simp add: scale_row_def)

lemma scale_row_zeros:
  assumes "\<forall>x\<in>set (data ! i). x = 0"
  shows "scale_row k i data = data"
proof -
  have "map (\<lambda>x. k * x) (data ! i) = map (\<lambda>x. x) (data ! i)"
    by (rule map_cong) (use assms in auto)
  then show ?thesis by (simp add: scale_row_def)
qed

lemma convert_to_cpm_nonpositive_row:
  assumes "i < length data" and "sum_list (data ! i) \<le> 0"
  shows "convert_to_cpm data ! i = map (\<lambda>x. 1000000 * x) (data ! i)"
  using assms by (simp add: convert_to_cpm_nth)

lemma convert_to_cpm_positive_row:
  assumes "0 < k" and "i < length data" and "0 < sum_list (data ! i)"
  shows "convert_to_cpm (scale_row k i data) = convert_to_cpm data"
proof (rule nth_equalityI)
  show "length (convert_to_cpm (scale_row k i data)) = length (convert_to_cpm data)"
    by (simp add: convert_to_cpm_length scale_row_def)
next
  fix j assume "j < length (convert_to_cpm (scale_row k i data))"
  then have j: "j < length data" by (simp add: convert_to_cpm_length scale_row_def)
  show "convert_to_cpm (scale_row k i data) ! j = convert_to_cpm data ! j"
  proof (cases "j = i")
    case True
    from assms(1,3) have "0 < k * sum_list (data ! i)" by simp
    with assms True show ?thesis
      by (simp add: convert_to_cpm_nth scale_row_def sum_list_scale o_def)
  next
    case False
    with j show ?thesis by (simp add: convert_to_cpm_nth scale_row_def)
  qed
qed

lemma convert_to_cpm_scaled_nonpositive_row:
  assumes "0 < k" and "i < length data" and "sum_list (data ! i) \<le> 0"
  shows "convert_to_cpm (scale_row k i data) ! i = map (\<lambda>x. k * (1000000 * x)) (data ! i)"
proof -
  from assms(1,3) have "k * sum_list (data ! i) \<le> 0" by (simp add: mult_le_0_iff)
  with assms(2) show ?thesis
    by (simp add: convert_to_cpm_nth scale_row_def sum_list_scale o_def)
qed

text \<open>
  Claim C6. For every cell-by-gene array, every row \<open>i\<close> and every positive constant \<open>k\<close>,
  multiplying row \<open>i\<close> by \<open>k\<close> before \<open>convert_to_cpm\<close> yields the same output as converting
  the unscaled array (exactly, in real arithmetic) if and only if \<open>k = 1\<close>, the sum of
  the row is positive, or the row is all zeros; in particular for every row of
  non-negative raw counts. A row whose sum is not positive is divided by 1, so its
  output scales with \<open>k\<close>.
\<close>

theorem convert_to_cpm_scale_invariant:
  assumes "0 < k" and "i < length data"
  shows "(convert_to_cpm (scale_row k i data) = convert_to_cpm data \<longleftrightarrow>
            k = 1 \<or> 0 < sum_list (data ! i) \<or> (\<forall>x\<in>set (data ! i). x = 0)) \<and>
         (raw_counts (data ! i) \<longrightarrow>
            convert_to_cpm (scale_row k i data) = convert_to_cpm data)"
proof -
  have iff: "convert_to_cpm (scale_row k i data) = convert_to_cpm data \<longleftrightarrow>
            k = 1 \<or> 0 < sum_list (data ! i) \<or> (\<forall>x\<in>set (data ! i). x = 0)"
  proof
    assume eq: "convert_to_cpm (scale_row k i data) = convert_to_cpm data"
    show "k = 1 \<or> 0 < sum_list (data ! i) \<or> (\<forall>x\<in>set (data ! i). x = 0)"
    proof (rule ccontr)
      assume n: "\<not> (k = 1 \<or> 0 < sum_list (data ! i) \<or> (\<forall>x\<in>set (data ! i). x = 0))"
      then have k1: "k \<noteq> 1" and s: "sum_list (data ! i) \<le> 0" by simp_all
      from n obtain x where x: "x \<in> set (data ! i)" "x \<noteq> 0" by blast
      from eq have "convert_to_cpm (scale_row k i data) ! i = convert_to_cpm data ! i" by simp
      then have "map (\<lambda>x. k * (1000000 * x)) (data ! i) = map (\<lambda>x. 1000000 * x) (data ! i)"
        by (simp only: convert_to_cpm_scaled_nonpositive_row [OF assms s]
            convert_to_cpm_nonpositive_row [OF assms(2) s])
      with x(1) have "k * (1000000 * x) = 1000000 * x" by (simp only: map_eq_conv)
      with x(2) k1 show False by simp
    qed
  next
    assume "k = 1 \<or> 0 < sum_list (data ! i) \<or> (\<forall>x\<in>set (data ! i). x = 0)"
    then consider "k = 1" | "0 < sum_list (data ! i)" | "\<forall>x\<in>set (data ! i). x = 0" by blast
    then show "convert_to_cpm (scale_row k i data) = convert_to_cpm data"
    proof cases
      case 1
      with assms(2) show ?thesis by (simp add: scale_row_one)
    next
      case 2
      with assms show ?thesis by (rule convert_to_cpm_positive_row)
    next
      case 3
      then show ?thesis by (simp only: scale_row_zeros)
    qed
  qed
  have "raw_counts (data ! i) \<longrightarrow> convert_to_cpm (scale_row k i data) = convert_to_cpm data"
  proof
    assume rc: "raw_counts (data ! i)"
    show "convert_to_cpm (scale_row k i data) = convert_to_cpm data"
    proof (cases "0 < sum_list (data ! i)")
      case True
      with iff show ?thesis by simp
    next
      case False
      with raw_counts_sum_nonneg [OF rc] have z: "sum_list (data ! i) = 0" by simp
      have "\<forall>x\<in>set (data ! i). x = 0" using raw_counts_sum_zero [OF rc z] by blast
      with iff show ?thesis by simp
    qed
  qed
  with iff show ?thesis by (rule conjI)
qed

theorem convert_to_cpm_scale_invariant_witness:
  "convert_to_cpm (scale_row 3 1 [[1, 3], [2, 6], [0, 0]]) = [[250000, 750000], [250000, 750000], [0, 0]]
   \<and> convert_to_cpm [[1, 3], [2, 6], [0, 0]] = [[250000, 750000], [250000, 750000], [0, 0]]"
proof -
  have e: "convert_to_cpm [[1, 3], [2, 6], [0, 0]] = [[250000, 750000], [250000, 750000], [0, 0]]"
    by (simp add: convert_to_cpm_def cpm_denom_def row_sums_def)
  have "convert_to_cpm (scale_row 3 1 [[1, 3], [2, 6], [0, 0]]) = convert_to_cpm [[1, 3], [2, 6], [0, 0]]"
    using convert_to_cpm_scale_invariant [of 3 1 "[[1, 3], [2, 6], [0, 0]]"]
    by simp
  with e show ?thesis by simp
qed

theorem convert_to_cpm_negative_row_scales:
  "convert_to_cpm (scale_row 2 0 [[- 1, - 3]]) = [[- 2000000, - 6000000]] \<and>
   convert_to_cpm [[- 1, - 3]] = [[- 1000000, - 3000000]]"
  by (simp add: convert_to_cpm_def cpm_denom_def row_sums_def scale_row_def)

text \<open>
  Claim C9. The denominator used for every row is positive (a row sum that is not
  positive is replaced by 1), so the conversion never divides by zero and returns one
  row per input row. A row whose sum is zero or negative is returned multiplied by
  \<open>10 ^ 6\<close>; hence a zero-sum row is returned unchanged exactly when it is all zeros,
  which is every zero-sum row of non-negative raw counts.
\<close>

theorem convert_to_cpm_zero_row:
  "list_all (\<lambda>d. 0 < d) (cpm_denom data) \<and>
   length (convert_to_cpm data) = length data \<and>
   (i < length data \<longrightarrow> sum_list (data ! i) \<le> 0 \<longrightarrow>
      convert_to_cpm data ! i = map (\<lambda>x. 1000000 * x) (data ! i)) \<and>
   (i < length data \<longrightarrow> sum_list (data ! i) = 0 \<longrightarrow>
      (convert_to_cpm data ! i = data ! i \<longleftrightarrow> list_all (\<lambda>v. v = 0) (data ! i))) \<and>
   (i < length data \<longrightarrow> raw_counts (data ! i) \<longrightarrow> sum_list (data ! i) = 0 \<longrightarrow>
      convert_to_cpm data ! i = data ! i \<and> list_all (\<lambda>v. v = 0) (convert_to_cpm data ! i))"
proof -
  have d: "list_all (\<lambda>d. 0 < d) (cpm_denom data)"
    by (auto simp: cpm_denom_def row_sums_def list_all_iff)
  have l: "length (convert_to_cpm data) = length data" by (rule convert_to_cpm_length)
  have n: "i < length data \<longrightarrow> sum_list (data ! i) \<le> 0 \<longrightarrow>
      convert_to_cpm data ! i = map (\<lambda>x. 1000000 * x) (data ! i)"
    by (simp add: convert_to_cpm_nonpositive_row)
  have z: "i < length data \<longrightarrow> sum_list (data ! i) = 0 \<longrightarrow>
      (convert_to_cpm data ! i = data ! i \<longleftrightarrow> list_all (\<lambda>v. v = 0) (data ! i))"
  proof (intro impI)
    assume i: "i < length data" and s: "sum_list (data ! i) = 0"
    have e: "convert_to_cpm data ! i = map (\<lambda>x. 1000000 * x) (data ! i)"
      using i s by (simp add: convert_to_cpm_nonpositive_row)
    have "map (\<lambda>x. 1000000 * x) (data ! i) = map (\<lambda>x. x) (data ! i)
            \<longleftrightarrow> (\<forall>x\<in>set (data ! i). 1000000 * x = x)"
      by (simp only: map_eq_conv)
    also have "\<dots> \<longleftrightarrow> (\<forall>x\<in>set (data ! i). x = 0)" by simp
    finally show "convert_to_cpm data ! i = data ! i \<longleftrightarrow> list_all (\<lambda>v. v = 0) (data ! i)"
      by (simp add: e list_all_iff)
  qed
  have r: "i < length data \<longrightarrow> raw_counts (data ! i) \<longrightarrow> sum_list (data ! i) = 0 \<longrightarrow>
      convert_to_cpm data ! i = data ! i \<and> list_all (\<lambda>v. v = 0) (convert_to_cpm data ! i)"
  proof (intro impI)
    assume i: "i < length data" and rc: "raw_counts (data ! i)" and s: "sum_list (data ! i) = 0"
    have all0: "list_all (\<lambda>v. v = 0) (data ! i)"
      using raw_counts_sum_zero [OF rc s] by (simp add: list_all_iff)
    with z i s have eq: "convert_to_cpm data ! i = data ! i" by simp
    with all0 show "convert_to_cpm data ! i = data ! i \<and>
        list_all (\<lambda>v. v = 0) (convert_to_cpm data ! i)" by simp
  qed
  from d l n z r show ?thesis by (intro conjI)
qed

theorem convert_to_cpm_zero_row_witness:
  "list_all (\<lambda>d. 0 < d) (cpm_denom [[5, 15], [0, 0]]) \<and>
   convert_to_cpm [[5, 15], [0, 0]] ! 1 = [0, 0] \<and>
   convert_to_cpm [[5, 15], [0, 0]] = [[250000, 750000], [0, 0]]"
proof -
  have "convert_to_cpm [[5, 15], [0, 0]] ! 1 = [[5, 15], [0, 0]] ! 1"
    using convert_to_cpm_zero_row [of "[[5, 15], [0, 0]]" 1] by (simp add: raw_counts_def)
  moreover have "list_all (\<lambda>d. 0 < d) (cpm_denom [[5, 15], [0, 0]])"
    using convert_to_cpm_zero_row [of "[[5, 15], [0, 0]]" 1] by blast
  moreover have "convert_to_cpm [[5, 15], [0, 0]] = [[250000, 750000], [0, 0]]"
    by (simp add: convert_to_cpm_def cpm_denom_def row_sums_def)
  ultimately show ?thesis by simp
qed

theorem convert_to_cpm_zero_sum_row_changes:
  "sum_list ([[2, - 2]] ! 0) = (0 :: real) \<and> convert_to_cpm [[2, - 2]] = [[2000000, - 2000000]]"
  by (simp add: convert_to_cpm_def cpm_denom_def row_sums_def)

section \<open>Properties of the CSR row iterator\<close>

lemma scatter_ok:
  "list_all (\<lambda>e. fst e < length buf) es \<Longrightarrow>
   \<exists>row. scatter buf es = Inr row \<and> length row = length buf"
proof (induction es arbitrary: buf)
  case Nil
  then show ?case by simp
next
  case (Cons e es)
  obtain j v where e: "e = (j, v)" by (cases e)
  from Cons.prems e have j: "j < length buf"
    and rest: "list_all (\<lambda>e. fst e < length (buf[j := v])) es" by simp_all
  from Cons.IH [OF rest] j e show ?case by simp
qed

lemma collect_ok:
  "list_all (\<lambda>r. \<exists>y. r = Inr y \<and> P y) rs \<Longrightarrow>
   \<exists>ys. collect rs = Inr ys \<and> length ys = length rs \<and> list_all P ys"
proof (induction rs)
  case Nil
  then show ?case by simp
next
  case (Cons r rs)
  then obtain y where r: "r = Inr y" and y: "P y" by auto
  from Cons obtain ys where "collect rs = Inr ys" "length ys = length rs" "list_all P ys"
    by auto
  with r y show ?case by simp
qed

lemma fst_in_zip: "e \<in> set (zip xs ys) \<Longrightarrow> fst e \<in> set xs"
  by (cases e) (auto dest: set_zip_leftD)

lemma load_row_ok:
  assumes wf: "csr_wf (n, c) f" and r: "r < n"
  shows "\<exists>row. load_row c f r = Inr row \<and> length row = c"
proof -
  let ?p = "csr_indptr f"
  from wf have len: "length ?p = Suc n" and srt: "sorted ?p"
    and lst: "last ?p \<le> length (csr_data f)"
    and li: "length (csr_indices f) = length (csr_data f)"
    and cols: "list_all (\<lambda>j. j < c) (csr_indices f)"
    by (simp_all add: csr_wf_def)
  have lohi: "?p ! r \<le> ?p ! Suc r"
    using srt r len by (simp add: sorted_iff_nth_mono)
  have "?p ! Suc r \<le> ?p ! n"
    using srt r len by (simp add: sorted_iff_nth_mono)
  moreover have "last ?p = ?p ! n"
  proof -
    from len have "?p \<noteq> []" by auto
    then show ?thesis using len by (simp add: last_conv_nth)
  qed
  ultimately have hi: "?p ! Suc r \<le> length (csr_data f)" using lst by simp
  let ?es = "zip (take (?p ! Suc r - ?p ! r) (drop (?p ! r) (csr_indices f)))
                 (take (?p ! Suc r - ?p ! r) (drop (?p ! r) (csr_data f)))"
  have "\<And>e. e \<in> set ?es \<Longrightarrow> fst e < c"
  proof -
    fix e assume "e \<in> set ?es"
    then have "fst e \<in> set (take (?p ! Suc r - ?p ! r) (drop (?p ! r) (csr_indices f)))"
      by (rule fst_in_zip)
    then have "fst e \<in> set (csr_indices f)"
      by (meson in_set_dropD in_set_takeD)
    with cols show "fst e < c" by (simp add: list_all_iff)
  qed
  then have "list_all (\<lambda>e. fst e < length (replicate c (0::real))) ?es"
    by (simp add: list_all_iff)
  from scatter_ok [OF this] obtain row where
    "scatter (replicate c 0) ?es = Inr row" "length row = c" by auto
  with lohi hi li r len show ?thesis by (simp add: load_row_def Let_def)
qed

lemma load_csr_ok:
  assumes wf: "csr_wf (n, c) f" and hi: "hi \<le> n"
  shows "\<exists>chunk. load_csr (lo, hi) c f = Inr chunk \<and> dense_shape c (chunk, lo, hi)"
proof -
  have "list_all (\<lambda>r. \<exists>y. r = Inr y \<and> length y = c) (map (load_row c f) [lo..<hi])"
    using load_row_ok [OF wf] hi by (auto simp: list_all_iff)
  from collect_ok [OF this] show ?thesis
    by (auto simp: load_csr_def dense_shape_def)
qed

lemma iterate_covers:
  assumes wf: "csr_wf (n_rows it, n_cols it) f" and h: "h5_handle it = Some f"
    and ch: "1 \<le> row_chunk_size it" and le: "r0 it \<le> n_rows it"
  shows "\<exists>ts it'. iterate it acc = Some (Inr (rev acc @ ts), it') \<and>
           covers (r0 it) (n_rows it) (map snd ts) \<and>
           list_all (dense_shape (n_cols it)) ts \<and>
           fst (CSRRowIterator_next it') = Inl StopIteration"
  using assms
proof (induction "n_rows it - r0 it" arbitrary: it acc rule: less_induct)
  case less
  show ?case
  proof (cases "n_rows it \<le> r0 it")
    case True
    with less.prems have eq: "r0 it = n_rows it" by simp
    have "iterate it acc = Some (Inr (rev acc @ []), it\<lparr>h5_handle := None\<rparr>)"
      using True by (subst iterate.simps) (simp add: CSRRowIterator_next_def)
    moreover have "fst (CSRRowIterator_next (it\<lparr>h5_handle := None\<rparr>)) = Inl StopIteration"
      using True by (simp add: CSRRowIterator_next_def)
    ultimately show ?thesis using eq by (intro exI [of _ "[]"] exI) simp
  next
    case False
    define r1 where "r1 = min (n_rows it) (r0 it + row_chunk_size it)"
    have r1: "r0 it < r1" "r1 \<le> n_rows it"
      using False less.prems(3) by (simp_all add: r1_def)
    from load_csr_ok [OF less.prems(1) r1(2), of "r0 it"] obtain chunk where
      chunk: "load_csr (r0 it, r1) (n_cols it) f = Inr chunk"
        "dense_shape (n_cols it) (chunk, r0 it, r1)" by auto
    let ?it = "it\<lparr>r0 := r1\<rparr>"
    have step: "CSRRowIterator_next it = (Inr (chunk, r0 it, r1), ?it)"
      using False chunk(1) less.prems(2)
      by (simp add: CSRRowIterator_next_def r1_def [symmetric] Let_def)
    have unfold: "iterate it acc = iterate ?it ((chunk, r0 it, r1) # acc)"
      by (subst iterate.simps) (simp add: step)
    have "n_rows ?it - r0 ?it < n_rows it - r0 it" using r1 by simp
    from less.hyps [OF this, of "(chunk, r0 it, r1) # acc"] less.prems r1
    obtain ts it' where
      rec: "iterate ?it ((chunk, r0 it, r1) # acc) = Some (Inr (rev ((chunk, r0 it, r1) # acc) @ ts), it')"
        "covers r1 (n_rows it) (map snd ts)" "list_all (dense_shape (n_cols it)) ts"
        "fst (CSRRowIterator_next it') = Inl StopIteration"
      by auto
    show ?thesis
      using rec chunk(2) r1 unfold
      by (intro exI [of _ "(chunk, r0 it, r1) # ts"] exI [of _ it']) simp
  qed
qed

text \<open>
  Claim C7. For every well-formed CSR matrix with \<open>n\<close> rows and every chunk size of at
  least 1, draining the iterator terminates: it yields triples \<open>(chunk, r0, r1)\<close> whose
  row ranges are non-empty, consecutive and cover \<open>[0, n)\<close> exactly, each chunk a dense
  \<open>(r1 - r0) \<times> n_cols\<close> array, and then raises \<^verbatim>\<open>StopIteration\<close>.
\<close>

theorem CSRRowIterator_covers:
  assumes "csr_wf (n, c) f" and "1 \<le> chunk"
  shows "\<exists>ts it'. iterate (CSRRowIterator_init f chunk (n, c)) [] = Some (Inr ts, it') \<and>
           covers 0 n (map snd ts) \<and> list_all (dense_shape c) ts \<and>
           fst (CSRRowIterator_next it') = Inl StopIteration"
  using iterate_covers [of "CSRRowIterator_init f chunk (n, c)" f "[]"] assms
  by (simp add: CSRRowIterator_init_def)

subsection \<open>np.round and the bootstrap sample size\<close>

lemma np_round_bounds: "of_int (np_round x) \<le> x + 1 / 2 \<and> x - 1 / 2 \<le> of_int (np_round x)"
  unfolding np_round_def Let_def by (auto; linarith)

lemma np_round_nonneg: "0 \<le> x \<Longrightarrow> 0 \<le> np_round x"
  unfolding np_round_def Let_def by (auto simp: ) 

lemma np_round_le_int:
  assumes "x \<le> of_int z"
  shows "np_round x \<le> z"
proof -
  have fl: "\<lfloor>x\<rfloor> \<le> z" using assms by (simp add: floor_le_iff)
  show ?thesis
  proof (cases "x - of_int \<lfloor>x\<rfloor> < 1 / 2")
    case True
    then show ?thesis using fl by (simp add: np_round_def Let_def)
  next
    case False
    have "\<lfloor>x\<rfloor> \<noteq> z"
    proof
      assume e: "\<lfloor>x\<rfloor> = z"
      then have "of_int z \<le> x" by (metis of_int_floor_le)
      with assms have "x = of_int z" by simp
      with False show False by simp
    qed
    with fl have "\<lfloor>x\<rfloor> + 1 \<le> z" by simp
    then show ?thesis using fl by (auto simp: np_round_def Let_def)
  qed
qed

lemma np_round_of_nat_le:
  assumes "x \<le> real n"
  shows "np_round x \<le> int n"
  using np_round_le_int [of x "int n"] assms by simp

lemma np_round_pos_iff:
  "1 \<le> np_round x \<longleftrightarrow> 1 / 2 < x"
proof -
  define f where "f = \<lfloor>x\<rfloor>"
  have lo: "of_int f \<le> x" and hi: "x < of_int f + 1"
    unfolding f_def by linarith+
  consider "f \<le> -1" | "f = 0" | "1 \<le> f" by linarith
  then show ?thesis
  proof cases
    case 1
    then have "of_int f \<le> (-1::real)" by (metis of_int_le_iff of_int_minus of_int_1)
    with hi have x: "x < 0" by linarith
    have "np_round x \<le> f + 1" by (simp add: np_round_def Let_def f_def)
    with 1 x show ?thesis by simp
  next
    case 2
    then show ?thesis using lo hi by (simp add: np_round_def Let_def f_def [symmetric])
  next
    case 3
    then have "(1::real) \<le> of_int f" by (metis of_int_le_iff of_int_1)
    with lo have x: "1 / 2 < x" by linarith
    have "f \<le> np_round x" by (simp add: np_round_def Let_def f_def)
    with 3 x show ?thesis by simp
  qed
qed

lemma floor_log2_eqI:
  assumes "power_int 2 e \<le> x" and "x < power_int 2 (e + 1)"
  shows "\<lfloor>log 2 x\<rfloor> = e"
proof -
  have pos: "0 < x" using assms(1) by (smt (verit) zero_less_power_int)
  have a: "2 powr (of_int e) \<le> x" using assms(1) by (simp add: powr_real_of_int')
  have "(2::real) powr (of_int (e + 1)) = power_int 2 (e + 1)"
    using powr_real_of_int' [of 2 "e + 1"] by simp
  with assms(2) have b: "x < 2 powr (of_int (e + 1))" by simp
  from a pos have "of_int e \<le> log 2 x" by (simp add: le_log_iff)
  moreover from b pos have "log 2 x < of_int (e + 1)" by (simp add: log_less_iff)
  ultimately show ?thesis by linarith
qed

lemma float64_exponent_eqI:
  assumes "- 1022 \<le> e" and "power_int 2 e \<le> \<bar>x\<bar>" and "\<bar>x\<bar> < power_int 2 (e + 1)"
  shows "float64_exponent x = e"
  using floor_log2_eqI [OF assms(2,3)] assms(1) by (simp add: float64_exponent_def)

lemma np_round_of_int: "np_round (of_int z) = z"
  by (simp add: np_round_def)

lemma float64_ulp_pos: "0 < float64_ulp x"
  by (simp add: float64_ulp_def)

lemma float64_nonneg: "0 \<le> x \<Longrightarrow> 0 \<le> float64 x"
  using float64_ulp_pos [of x] by (simp add: float64_def np_round_nonneg)

lemma float64_le_grid:
  assumes "x \<le> y" and "y / float64_ulp x = of_int z"
  shows "float64 x \<le> y"
proof (cases "x = 0")
  case True
  with assms(1) show ?thesis by (simp add: float64_def)
next
  case False
  have u: "0 < float64_ulp x" by (rule float64_ulp_pos)
  from assms(1) u have "x / float64_ulp x \<le> y / float64_ulp x" by (simp add: divide_right_mono)
  with assms(2) have "np_round (x / float64_ulp x) \<le> z" by (simp add: np_round_le_int)
  then have "of_int (np_round (x / float64_ulp x)) \<le> (of_int z :: real)" by simp
  with u have "of_int (np_round (x / float64_ulp x)) * float64_ulp x \<le> of_int z * float64_ulp x"
    by (simp add: mult_right_mono)
  also have "of_int z * float64_ulp x = y" using assms(2) u by (simp add: field_simps)
  finally show ?thesis using False by (simp add: float64_def)
qed

lemma float64_fix_grid:
  assumes "y / float64_ulp y = of_int z"
  shows "float64 y = y"
proof (cases "y = 0")
  case True
  then show ?thesis by (simp add: float64_def)
next
  case False
  have u: "0 < float64_ulp y" by (rule float64_ulp_pos)
  have "of_int z * float64_ulp y = y" using assms u by (simp add: field_simps)
  then show ?thesis using False assms by (simp add: float64_def np_round_of_int)
qed

lemma float64_exponent_le:
  assumes "x \<noteq> 0" and "\<bar>x\<bar> < 2 ^ Suc k"
  shows "float64_exponent x \<le> int k"
proof -
  have pos: "0 < \<bar>x\<bar>" using assms(1) by simp
  have "(2::real) powr (of_nat (Suc k)) = 2 ^ Suc k" by (rule powr_realpow) simp
  with assms(2) have "\<bar>x\<bar> < 2 powr (of_nat (Suc k))" by simp
  with pos have "log 2 \<bar>x\<bar> < of_nat (Suc k)" by (simp add: log_less_iff)
  then have "\<lfloor>log 2 \<bar>x\<bar>\<rfloor> < int (Suc k)" by linarith
  then show ?thesis by (simp add: float64_exponent_def)
qed

lemma float64_exponent_le_minus:
  assumes "x \<noteq> 0" and "\<bar>x\<bar> \<le> 1 / 2"
  shows "float64_exponent x \<le> - 1"
proof -
  have pos: "0 < \<bar>x\<bar>" using assms(1) by simp
  have "\<bar>x\<bar> < 2 powr 0" using assms(2) by simp
  with pos have "log 2 \<bar>x\<bar> < 0" using log_less_iff [of 2 "\<bar>x\<bar>" 0] by simp
  then have "\<lfloor>log 2 \<bar>x\<bar>\<rfloor> < 0" by linarith
  then show ?thesis unfolding float64_exponent_def by linarith
qed

lemma float64_ulp_inverse:
  assumes "float64_exponent x \<le> 52"
  shows "float64_ulp x = 1 / 2 ^ nat (52 - float64_exponent x)"
proof -
  define k where "k = nat (52 - float64_exponent x)"
  have "float64_exponent x - 52 = - int k" using assms by (simp add: k_def)
  then have "float64_ulp x = power_int 2 (- int k)"
    by (simp only: float64_ulp_def)
  also have "\<dots> = 1 / 2 ^ k" by (simp add: power_int_minus field_simps)
  finally show ?thesis by (simp only: k_def)
qed

lemma float64_le_nat:
  assumes "0 \<le> x" and "x \<le> real n" and "n < 2 ^ 53"
  shows "float64 x \<le> real n"
proof (cases "x = 0")
  case True
  then show ?thesis by (simp add: float64_def)
next
  case False
  have "\<bar>x\<bar> < 2 ^ Suc 52" using assms by simp
  from float64_exponent_le [OF False this] have e: "float64_exponent x \<le> 52" by simp
  define k where "k = nat (52 - float64_exponent x)"
  have "real n / float64_ulp x = of_int (int (n * 2 ^ k))"
    by (simp add: float64_ulp_inverse [OF e] k_def)
  with assms(2) show ?thesis by (rule float64_le_grid)
qed

lemma float64_of_nat:
  assumes "n < 2 ^ 53"
  shows "float64 (real n) = real n"
proof (cases "n = 0")
  case True
  then show ?thesis by (simp add: float64_def)
next
  case False
  have "\<bar>real n\<bar> < 2 ^ Suc 52" using assms by simp
  moreover have "real n \<noteq> 0" using False by simp
  ultimately have e: "float64_exponent (real n) \<le> 52"
    using float64_exponent_le [of "real n" 52] by simp
  define k where "k = nat (52 - float64_exponent (real n))"
  have "real n / float64_ulp (real n) = of_int (int (n * 2 ^ k))"
    by (simp add: float64_ulp_inverse [OF e] k_def)
  then show ?thesis by (rule float64_fix_grid)
qed

lemma float64_le_half:
  assumes "0 \<le> x" and "x \<le> 1 / 2"
  shows "float64 x \<le> 1 / 2"
proof (cases "x = 0")
  case True
  then show ?thesis by (simp add: float64_def)
next
  case False
  have "\<bar>x\<bar> \<le> 1 / 2" using assms by simp
  from float64_exponent_le_minus [OF False this] have e: "float64_exponent x \<le> - 1" .
  then have e52: "float64_exponent x \<le> 52" by simp
  define k where "k = nat (51 - float64_exponent x)"
  have "nat (52 - float64_exponent x) = Suc k" using e by (simp add: k_def)
  then have "(1 / 2 :: real) / float64_ulp x = of_int (int (2 ^ k))"
    by (simp add: float64_ulp_inverse [OF e52])
  with assms(2) show ?thesis by (rule float64_le_grid)
qed

lemma bootstrap_sample_size_range:
  assumes "0 \<le> bf" and "bf \<le> 1" and "n < 2 ^ 53"
  shows "0 \<le> bootstrap_sample_size bf n \<and> bootstrap_sample_size bf n \<le> int n"
proof -
  have "0 \<le> bf * real n" using assms(1) by simp
  moreover have "bf * real n \<le> 1 * real n"
    using assms(2) by (intro mult_right_mono) simp_all
  ultimately have "0 \<le> float64 (bf * real n)" and "float64 (bf * real n) \<le> real n"
    using assms(3) by (simp_all add: float64_nonneg float64_le_nat)
  then show ?thesis
    by (simp add: bootstrap_sample_size_def float64_of_nat [OF assms(3)] np_round_nonneg
        np_round_of_nat_le)
qed

lemma bootstrap_sample_size_demo: "bootstrap_sample_size (3 / 4) 4 = 3"
proof -
  have e4: "float64_exponent 4 = 2"
    by (rule float64_exponent_eqI) (simp_all add: power_int_minus)
  have f4: "float64 4 = 4"
    by (simp add: float64_def float64_ulp_def e4 np_round_def power_int_minus)
  have e3: "float64_exponent 3 = 1"
    by (rule float64_exponent_eqI) (simp_all add: power_int_minus)
  have f3: "float64 3 = 3"
    by (simp add: float64_def float64_ulp_def e3 np_round_def power_int_minus)
  show ?thesis by (simp add: bootstrap_sample_size_def f4 f3 np_round_def)
qed

lemma float64_tenth: "float64 (1 / 10) = 3602879701896397 / 36028797018963968"
proof -
  have e: "float64_exponent (1 / 10) = - 4"
    by (rule float64_exponent_eqI) (simp_all add: power_int_minus)
  show ?thesis by (simp add: float64_def float64_ulp_def e np_round_def power_int_minus)
qed

lemma bootstrap_sample_size_tenth_of_4: "bootstrap_sample_size (float64 (1 / 10)) 4 = 0"
proof -
  have e4: "float64_exponent 4 = 2"
    by (rule float64_exponent_eqI) (simp_all add: power_int_minus)
  have f4: "float64 4 = 4"
    by (simp add: float64_def float64_ulp_def e4 np_round_def power_int_minus)
  have e: "float64_exponent (3602879701896397 / 9007199254740992) = - 2"
    by (rule float64_exponent_eqI) (simp_all add: power_int_minus)
  have f: "float64 (3602879701896397 / 9007199254740992) = 3602879701896397 / 9007199254740992"
    by (simp add: float64_def float64_ulp_def e np_round_def power_int_minus)
  show ?thesis by (simp add: bootstrap_sample_size_def float64_tenth f4 f np_round_def)
qed

lemma bootstrap_sample_size_tenth_of_5: "bootstrap_sample_size (float64 (1 / 10)) 5 = 0"
proof -
  have e5: "float64_exponent 5 = 2"
    by (rule float64_exponent_eqI) (simp_all add: power_int_minus)
  have f5: "float64 5 = 5"
    by (simp add: float64_def float64_ulp_def e5 np_round_def power_int_minus)
  have e: "float64_exponent (18014398509481985 / 36028797018963968) = - 1"
    by (rule float64_exponent_eqI) (simp_all add: power_int_minus)
  have f: "float64 (18014398509481985 / 36028797018963968) = 1 / 2"
    by (simp add: float64_def float64_ulp_def e np_round_def power_int_minus)
  show ?thesis by (simp add: bootstrap_sample_size_def float64_tenth f5 f np_round_def)
qed

lemma draw_markers_ok:
  assumes ok: "sampler_ok sample" and m: "0 \<le> m" "m \<le> int n"
  shows "\<exists>idx g'. draw_markers sample g n m = (Inr idx, g') \<and> length idx = nat m \<and>
           distinct idx \<and> sorted idx \<and> set idx \<subseteq> {..<n}"
proof -
  obtain xs g' where s: "sample g [0..<n] (nat m) = (xs, g')" by (cases "sample g [0..<n] (nat m)")
  have "nat m \<le> length [0..<n]" using m by simp
  with ok have "length (fst (sample g [0..<n] (nat m))) = nat m \<and>
      distinct (fst (sample g [0..<n] (nat m))) \<and>
      set (fst (sample g [0..<n] (nat m))) \<subseteq> set [0..<n]"
    unfolding sampler_ok_def by (metis distinct_upt)
  with s have xs: "length xs = nat m" "distinct xs" "set xs \<subseteq> {..<n}" by auto
  have "draw_markers sample g n m = (Inr (sort xs), g')"
    using m s by (simp add: draw_markers_def rng_choice_def)
  with xs show ?thesis by auto
qed

lemma sampler_ok_rotating: "sampler_ok rotating_sample"
  by (auto simp: sampler_ok_def rotating_sample_def dest: in_set_takeD)

text \<open>
  Claim C4. For \<open>0 \<le> bootstrap_factor \<le> 1\<close> and a marker set of size \<open>n_markers\<close>
  (below \<open>2 ^ 53\<close>, so that it is a float64 exactly), the sample size
  \<open>m = np.round (bootstrap_factor * n_markers)\<close> satisfies \<open>0 \<le> m \<le> n_markers\<close>; \<open>m \<ge> 1\<close>
  exactly when the float64 product exceeds \<open>1 / 2\<close>, so \<open>m = 0\<close> whenever
  \<open>bootstrap_factor * n_markers \<le> 1 / 2\<close>; and each iteration draws \<open>m\<close> distinct marker
  indices below \<open>n_markers\<close>, sorted. There is no lower clamp at 1.
\<close>

theorem bootstrap_sample_size_bounds:
  assumes "sampler_ok sample" and "0 \<le> bootstrap_factor" and "bootstrap_factor \<le> 1"
    and "n_markers < 2 ^ 53"
  shows "0 \<le> bootstrap_sample_size bootstrap_factor n_markers \<and>
         bootstrap_sample_size bootstrap_factor n_markers \<le> int n_markers \<and>
         (1 \<le> bootstrap_sample_size bootstrap_factor n_markers
            \<longleftrightarrow> 1 / 2 < float64 (bootstrap_factor * real n_markers)) \<and>
         (bootstrap_factor * real n_markers \<le> 1 / 2
            \<longrightarrow> bootstrap_sample_size bootstrap_factor n_markers = 0) \<and>
         (\<exists>idx g'. draw_markers sample g n_markers
                      (bootstrap_sample_size bootstrap_factor n_markers) = (Inr idx, g') \<and>
            length idx = nat (bootstrap_sample_size bootstrap_factor n_markers) \<and>
            distinct idx \<and> sorted idx \<and> set idx \<subseteq> {..<n_markers})"
proof -
  have r: "0 \<le> bootstrap_sample_size bootstrap_factor n_markers"
    "bootstrap_sample_size bootstrap_factor n_markers \<le> int n_markers"
    using bootstrap_sample_size_range [OF assms(2,3,4)] by simp_all
  have p: "1 \<le> bootstrap_sample_size bootstrap_factor n_markers
            \<longleftrightarrow> 1 / 2 < float64 (bootstrap_factor * real n_markers)"
    by (simp add: bootstrap_sample_size_def float64_of_nat [OF assms(4)] np_round_pos_iff)
  have z: "bootstrap_factor * real n_markers \<le> 1 / 2
            \<longrightarrow> bootstrap_sample_size bootstrap_factor n_markers = 0"
  proof
    assume le: "bootstrap_factor * real n_markers \<le> 1 / 2"
    have "0 \<le> bootstrap_factor * real n_markers" using assms(2) by simp
    from float64_le_half [OF this le] p
    have "\<not> 1 \<le> bootstrap_sample_size bootstrap_factor n_markers" by simp
    with r(1) show "bootstrap_sample_size bootstrap_factor n_markers = 0" by simp
  qed
  from r p z draw_markers_ok [OF assms(1) r] show ?thesis by blast
qed

theorem bootstrap_sample_size_bounds_witness:
  "bootstrap_sample_size (3 / 4) 4 = 3 \<and>
   draw_markers rotating_sample (1::nat) 4 (bootstrap_sample_size (3 / 4) 4) = (Inr [1, 2, 3], 2) \<and>
   (\<exists>idx g'. draw_markers rotating_sample (1::nat) 4 (bootstrap_sample_size (3 / 4) 4) = (Inr idx, g') \<and>
      length idx = nat (bootstrap_sample_size (3 / 4) 4) \<and>
      distinct idx \<and> sorted idx \<and> set idx \<subseteq> {..<4})"
proof -
  have b: "draw_markers rotating_sample (1::nat) 4 3 = (Inr [1, 2, 3], 2)"
    by (simp add: draw_markers_def rng_choice_def rotating_sample_def upt_rec)
  from bootstrap_sample_size_demo b
    bootstrap_sample_size_bounds [OF sampler_ok_rotating, of "3 / 4" 4 1]
  show ?thesis by simp
qed

theorem bootstrap_sample_size_zero:
  "bootstrap_sample_size (float64 (1 / 10)) 4 = 0 \<and>
   draw_markers rotating_sample (0::nat) 4 (bootstrap_sample_size (float64 (1 / 10)) 4)
     = (Inr [], 1) \<and>
   bootstrap_sample_size (float64 (1 / 10)) 5 = 0"
  by (simp add: bootstrap_sample_size_tenth_of_4 bootstrap_sample_size_tenth_of_5
      draw_markers_def rng_choice_def rotating_sample_def)

theorem CSRRowIterator_covers_witness:
  "iterate (CSRRowIterator_init demo_csr 2 (3, 2)) [] =
     Some (Inr [([[1, 0], [0, 2]], 0, 2), ([[0, 3]], 2, 3)],
           \<lparr>h5_handle = None, row_chunk_size = 2, r0 = 3, n_rows = 3, n_cols = 2\<rparr>) \<and>
   (\<exists>ts it'. iterate (CSRRowIterator_init demo_csr 2 (3, 2)) [] = Some (Inr ts, it') \<and>
      covers 0 3 (map snd ts) \<and> list_all (dense_shape 2) ts \<and>
      fst (CSRRowIterator_next it') = Inl StopIteration)"
proof -
  have wf: "csr_wf (3, 2) demo_csr" by (simp add: csr_wf_def demo_csr_def)
  have ev: "iterate (CSRRowIterator_init demo_csr 2 (3, 2)) [] =
     Some (Inr [([[1, 0], [0, 2]], 0, 2), ([[0, 3]], 2, 3)],
           \<lparr>h5_handle = None, row_chunk_size = 2, r0 = 3, n_rows = 3, n_cols = 2\<rparr>)"
    by (simp add: iterate.simps CSRRowIterator_init_def CSRRowIterator_next_def load_csr_def
        load_row_def demo_csr_def upt_rec numeral_2_eq_2)
  from ev CSRRowIterator_covers [OF wf, of 2] show ?thesis by simp
qed

section \<open>Properties of the vote tally\<close>

lemma collect_Inr: "collect rs = Inr ys \<Longrightarrow> rs = map Inr ys"
proof (induction rs arbitrary: ys)
  case Nil
  then show ?case by simp
next
  case (Cons r rs)
  then show ?case by (cases r) (auto split: sum.splits)
qed

lemma argmax_scan_spec:
  assumes "ys = pre @ xs" and "bi < i" and "i = length pre" and "ys ! bi = best"
    and "\<forall>j<i. ys ! j \<le> best" and "\<forall>j<bi. ys ! j < best"
  shows "argmax_scan best bi i xs < length ys \<and>
         (\<forall>j<length ys. ys ! j \<le> ys ! argmax_scan best bi i xs) \<and>
         (\<forall>j<argmax_scan best bi i xs. ys ! j < ys ! argmax_scan best bi i xs)"
  using assms
proof (induction xs arbitrary: best bi i pre)
  case Nil
  then show ?case by auto
next
  case (Cons x xs)
  have app: "ys = (pre @ [x]) @ xs" using Cons.prems(1) by simp
  have xi: "ys ! i = x" using Cons.prems(1,3) by simp
  have len: "Suc i = length (pre @ [x])" using Cons.prems(3) by simp
  show ?case
  proof (cases "best < x")
    case True
    have d: "\<forall>j<Suc i. ys ! j \<le> x"
    proof (intro allI impI)
      fix j assume "j < Suc i"
      then consider "j < i" | "j = i" by linarith
      then show "ys ! j \<le> x"
      proof cases
        case 1
        with Cons.prems(5) have "ys ! j \<le> best" by blast
        with True show ?thesis by simp
      next
        case 2
        with xi show ?thesis by simp
      qed
    qed
    have e: "\<forall>j<i. ys ! j < x"
    proof (intro allI impI)
      fix j assume "j < i"
      with Cons.prems(5) have "ys ! j \<le> best" by blast
      with True show "ys ! j < x" by simp
    qed
    have "argmax_scan best bi i (x # xs) = argmax_scan x i (Suc i) xs" using True by simp
    with Cons.IH [OF app _ len xi d e] show ?thesis by simp
  next
    case False
    have a: "bi < Suc i" using Cons.prems(2) by simp
    have d: "\<forall>j<Suc i. ys ! j \<le> best"
    proof (intro allI impI)
      fix j assume "j < Suc i"
      then consider "j < i" | "j = i" by linarith
      then show "ys ! j \<le> best"
      proof cases
        case 1
        with Cons.prems(5) show ?thesis by simp
      next
        case 2
        with xi False show ?thesis by simp
      qed
    qed
    have "argmax_scan best bi i (x # xs) = argmax_scan best bi (Suc i) xs" using False by simp
    with Cons.IH [OF app a len Cons.prems(4) d Cons.prems(6)] show ?thesis by simp
  qed
qed

lemma np_argmax_spec:
  assumes "np_argmax xs = Inr w"
  shows "w < length xs \<and> (\<forall>j<length xs. xs ! j \<le> xs ! w) \<and> (\<forall>j<w. xs ! j < xs ! w)"
proof -
  from assms obtain x rest where xs: "xs = x # rest" and w: "w = argmax_scan x 0 1 rest"
    by (auto simp: np_argmax_def split: list.splits)
  have "argmax_scan x 0 1 rest < length xs \<and>
        (\<forall>j<length xs. xs ! j \<le> xs ! argmax_scan x 0 1 rest) \<and>
        (\<forall>j<argmax_scan x 0 1 rest. xs ! j < xs ! argmax_scan x 0 1 rest)"
    by (rule argmax_scan_spec [where pre = "[x]"]) (auto simp: xs)
  with w show ?thesis by simp
qed

lemma np_argmax_ok: "xs \<noteq> [] \<Longrightarrow> \<exists>w. np_argmax xs = Inr w"
  by (cases xs) (simp_all add: np_argmax_def)

lemma shape1_le: "n_columns n m \<Longrightarrow> shape1 m \<le> n"
  by (cases m) (simp_all add: shape1_def n_columns_def)

lemma take_cols_ok:
  assumes "n_columns n m" and "set idx \<subseteq> {..<k}" and "k \<le> n"
  shows "\<exists>m'. take_cols idx m = Inr m' \<and> length m' = length m"
proof -
  have "list_all (\<lambda>row. list_all (\<lambda>j. j < length row) idx) m"
    using assms by (auto simp: list_all_iff n_columns_def)
  then show ?thesis by (simp add: take_cols_def)
qed

lemma bootstrap_loop_ok:
  assumes cnn: "neighbors_ok cnn" and smp: "sampler_ok sample"
    and m: "0 \<le> m" "m \<le> int k" and kn: "k \<le> n"
    and q: "n_columns n query" and r: "n_columns n reference" and ne: "reference \<noteq> []"
  shows "\<exists>results g'. bootstrap_loop cnn sample query reference k m iters g = (Inr results, g') \<and>
           length results = iters \<and>
           list_all (ballots_ok (length query) (length reference)) results"
proof (induction iters arbitrary: g)
  case 0
  show ?case by simp
next
  case (Suc iters)
  from draw_markers_ok [OF smp m] obtain idx g1 where
    d: "draw_markers sample g k m = (Inr idx, g1)" and idx: "set idx \<subseteq> {..<k}" by blast
  from take_cols_ok [OF q idx kn] obtain bq where
    bq: "take_cols idx query = Inr bq" "length bq = length query" by blast
  from take_cols_ok [OF r idx kn] obtain br where
    br: "take_cols idx reference = Inr br" "length br = length reference" by blast
  from br(2) ne have "br \<noteq> []" by auto
  with cnn obtain nn cc where
    c: "cnn br bq = Inr (nn, cc)" "length nn = length bq" "length cc = length bq"
       "list_all (\<lambda>j. j < length br) nn"
    unfolding neighbors_ok_def by blast
  from Suc.IH [of g1] obtain results g' where
    rec: "bootstrap_loop cnn sample query reference k m iters g1 = (Inr results, g')"
      "length results = iters"
      "list_all (ballots_ok (length query) (length reference)) results" by blast
  have "bootstrap_loop cnn sample query reference k m (Suc iters) g = (Inr ((nn, cc) # results), g')"
    using d bq(1) br(1) c(1) rec(1) by simp
  moreover have "ballots_ok (length query) (length reference) (nn, cc)"
    using c bq(2) br(2) by (simp add: ballots_ok_def)
  ultimately show ?case using rec(2,3) by simp
qed

lemma zip_collect_ok:
  assumes "\<And>z. z \<in> set zs \<Longrightarrow> \<exists>y. f z = Inr y \<and> P y"
  shows "\<exists>ys. collect (map f zs) = Inr ys \<and> length ys = length zs \<and> list_all P ys"
proof -
  have "list_all (\<lambda>r. \<exists>y. r = Inr y \<and> P y) (map f zs)"
    using assms by (simp add: list_all_iff)
  from collect_ok [OF this] show ?thesis by simp
qed

lemma bump_row:
  assumes "votes_ok nr s row" and "j < nr" and "Suc s < 2 ^ bits"
  shows "votes_ok nr (Suc s) (row[j := (row ! j + 1) mod 2 ^ bits])"
proof -
  from assms(1) have len: "length row = nr" and sm: "sum_list row = s"
    by (simp_all add: votes_ok_def)
  have "row ! j \<in> set row" using assms(2) len by simp
  then have "row ! j \<le> s" using member_le_sum_list sm by blast
  then have md: "(row ! j + 1) mod 2 ^ bits = row ! j + 1" using assms(3) by simp
  have "sum_list (row[j := row ! j + 1]) = sum_list row + (row ! j + 1) - row ! j"
    using assms(2) len by (simp add: sum_list_update)
  then show ?thesis using len sm md by (simp add: votes_ok_def)
qed

lemma cast_votes_ok:
  assumes "length nn = length votes" and "list_all (\<lambda>j. j < nr) nn"
    and "list_all (votes_ok nr s) votes" and "Suc s < 2 ^ bits"
  shows "\<exists>votes'. cast_votes bits votes nn = Inr votes' \<and> length votes' = length votes \<and>
           list_all (votes_ok nr (Suc s)) votes'"
proof -
  let ?f = "\<lambda>(row, j). if j < length row then Inr (row[j := (row ! j + 1) mod 2 ^ bits])
                        else Inl IndexError"
  have "\<And>z. z \<in> set (zip votes nn) \<Longrightarrow> \<exists>y. ?f z = Inr y \<and> votes_ok nr (Suc s) y"
  proof -
    fix z assume z: "z \<in> set (zip votes nn)"
    obtain row j where zz: "z = (row, j)" by (cases z)
    with z have "row \<in> set votes" "j \<in> set nn" by (auto dest: set_zip_leftD set_zip_rightD)
    with assms(2,3) have ok: "votes_ok nr s row" and j: "j < nr" by (simp_all add: list_all_iff)
    from ok have "length row = nr" by (simp add: votes_ok_def)
    with bump_row [OF ok j assms(4)] j zz
    show "\<exists>y. ?f z = Inr y \<and> votes_ok nr (Suc s) y" by simp
  qed
  from zip_collect_ok [of "zip votes nn" ?f, OF this] assms(1)
  show ?thesis by (simp add: cast_votes_def)
qed

lemma add_corr_ok:
  assumes "length nn = length corr_sum" and "length cc = length corr_sum"
    and "list_all (\<lambda>j. j < nr) nn" and "n_columns nr corr_sum"
  shows "\<exists>corr'. add_corr corr_sum nn cc = Inr corr' \<and> length corr' = length corr_sum \<and>
           n_columns nr corr'"
proof -
  let ?f = "\<lambda>(row, j, c). if j < length row then Inr (row[j := row ! j + c])
                           else Inl IndexError"
  have "\<And>z. z \<in> set (zip corr_sum (zip nn cc)) \<Longrightarrow> \<exists>y. ?f z = Inr y \<and> length y = nr"
  proof -
    fix z assume z: "z \<in> set (zip corr_sum (zip nn cc))"
    obtain row j c where zz: "z = (row, j, c)" by (cases z) auto
    with z have "row \<in> set corr_sum" "(j, c) \<in> set (zip nn cc)"
      by (auto dest: set_zip_leftD set_zip_rightD)
    then have "row \<in> set corr_sum" "j \<in> set nn" by (auto dest: set_zip_leftD)
    with assms(3,4) have "length row = nr" "j < nr" by (simp_all add: list_all_iff n_columns_def)
    with zz show "\<exists>y. ?f z = Inr y \<and> length y = nr" by simp
  qed
  from zip_collect_ok [of "zip corr_sum (zip nn cc)" ?f "\<lambda>y. length y = nr", OF this] assms(1,2)
  show ?thesis by (simp add: add_corr_def n_columns_def)
qed

lemma tally_loop_ok:
  assumes "list_all (ballots_ok nq nr) results"
    and "length votes = nq" and "list_all (votes_ok nr s) votes"
    and "length corr_sum = nq" and "n_columns nr corr_sum"
    and "s + length results < 2 ^ bits"
  shows "\<exists>votes' corr'. tally_loop bits votes corr_sum results = Inr (votes', corr') \<and>
           length votes' = nq \<and> list_all (votes_ok nr (s + length results)) votes' \<and>
           length corr' = nq \<and> n_columns nr corr'"
  using assms
proof (induction results arbitrary: votes corr_sum s)
  case Nil
  then show ?case by simp
next
  case (Cons b results)
  obtain nn cc where b: "b = (nn, cc)" by (cases b)
  from Cons.prems(1) have rest: "list_all (ballots_ok nq nr) results"
    and "ballots_ok nq nr b" by simp_all
  with b have nn: "length nn = nq" "length cc = nq" "list_all (\<lambda>j. j < nr) nn"
    by (simp_all add: ballots_ok_def)
  have s1: "Suc s < 2 ^ bits" using Cons.prems(6) by simp
  from cast_votes_ok [OF _ nn(3) Cons.prems(3) s1] nn(1) Cons.prems(2)
  obtain votes1 where v1: "cast_votes bits votes nn = Inr votes1" "length votes1 = nq"
    "list_all (votes_ok nr (Suc s)) votes1" by auto
  from add_corr_ok [OF _ _ nn(3) Cons.prems(5), where cc = cc] nn(1,2) Cons.prems(4)
  obtain corr1 where c1: "add_corr corr_sum nn cc = Inr corr1" "length corr1 = nq"
    "n_columns nr corr1" by auto
  have "Suc s + length results < 2 ^ bits" using Cons.prems(6) by simp
  from Cons.IH [OF rest v1(2,3) c1(2,3) this] v1(1) c1(1) b show ?case by simp
qed

lemma tally_votes_ok:
  assumes cnn: "neighbors_ok cnn" and smp: "sampler_ok sample"
    and dt: "iters < 2 ^ choose_int_dtype (0, int iters)"
    and bf: "0 \<le> bf" "bf \<le> 1" and nb: "n < 2 ^ 53"
    and q: "n_columns n query" and r: "n_columns n reference" and ne: "reference \<noteq> []"
  shows "\<exists>votes corr_sum g'.
           tally_votes cnn choose_int_dtype sample query reference bf iters g
             = (Inr (votes, corr_sum), g') \<and>
           length votes = length query \<and>
           list_all (votes_ok (length reference) iters) votes \<and>
           length corr_sum = length query \<and> n_columns (length reference) corr_sum"
proof -
  let ?k = "shape1 query"
  let ?m = "bootstrap_sample_size bf ?k"
  have "?k < 2 ^ 53" using shape1_le [OF q] nb by simp
  from bootstrap_sample_size_range [OF bf this]
  have m: "0 \<le> ?m" "?m \<le> int ?k" by simp_all
  from bootstrap_loop_ok [OF cnn smp m shape1_le [OF q] q r ne, of iters g]
  obtain results g' where
    bl: "bootstrap_loop cnn sample query reference ?k ?m iters g = (Inr results, g')"
      "length results = iters"
      "list_all (ballots_ok (length query) (length reference)) results" by blast
  let ?v0 = "replicate (length query) (replicate (length reference) (0::nat))"
  let ?c0 = "replicate (length query) (replicate (length reference) (0::real))"
  have v0: "list_all (votes_ok (length reference) 0) ?v0"
    by (simp add: list_all_iff votes_ok_def)
  have c0: "n_columns (length reference) ?c0" by (simp add: n_columns_def list_all_iff)
  have "0 + length results < 2 ^ choose_int_dtype (0, int iters)" using dt bl(2) by simp
  from tally_loop_ok [OF bl(3) _ v0 _ c0 this]
  obtain votes corr_sum where
    "tally_loop (choose_int_dtype (0, int iters)) ?v0 ?c0 results = Inr (votes, corr_sum)"
    "length votes = length query" "list_all (votes_ok (length reference) (0 + length results)) votes"
    "length corr_sum = length query" "n_columns (length reference) corr_sum" by auto
  with bl(1,2) show ?thesis by (simp add: tally_votes_def Let_def)
qed

lemma tally_loop_lengths:
  "tally_loop bits votes corr_sum results = Inr (votes', corr') \<Longrightarrow>
   length corr_sum = length votes \<Longrightarrow> length votes' = length votes \<and> length corr' = length votes"
proof (induction results arbitrary: votes corr_sum)
  case Nil
  then show ?case by simp
next
  case (Cons b results)
  obtain nn cc where b: "b = (nn, cc)" by (cases b)
  from Cons.prems(1) b obtain votes1 corr1 where
    v1: "cast_votes bits votes nn = Inr votes1" and c1: "add_corr corr_sum nn cc = Inr corr1"
    and rec: "tally_loop bits votes1 corr1 results = Inr (votes', corr')"
    by (auto split: sum.splits)
  from v1 have "length votes1 = length votes"
    by (auto simp: cast_votes_def split: if_splits dest!: collect_Inr arg_cong [where f = length])
  moreover from c1 have "length corr1 = length corr_sum"
    by (auto simp: add_corr_def split: if_splits dest!: collect_Inr arg_cong [where f = length])
  ultimately show ?case using Cons.IH [OF rec] Cons.prems(2) by simp
qed

lemma tally_votes_lengths:
  assumes "tally_votes cnn choose_int_dtype sample query reference bf iters g
             = (Inr (votes, corr_sum), g')"
  shows "length votes = length query \<and> length corr_sum = length query"
proof -
  from assms obtain results where
    "tally_loop (choose_int_dtype (0, int iters))
       (replicate (length query) (replicate (length reference) 0))
       (replicate (length query) (replicate (length reference) 0)) results = Inr (votes, corr_sum)"
    by (auto simp: tally_votes_def Let_def split: prod.splits sum.splits)
  from tally_loop_lengths [OF this] show ?thesis by simp
qed

lemma choose_from_tally_Inr:
  assumes c: "choose_from_tally votes corr_sum types iters = Inr (result, vf, ac)"
    and len: "length corr_sum = length votes" and q: "q < length votes"
  shows "\<exists>w. np_argmax (votes ! q) = Inr w \<and> w < length types \<and> result ! q = types ! w \<and>
           vf ! q = true_divide (real (votes ! q ! w)) (real iters) \<and>
           ac ! q = true_divide (corr_sum ! q ! w) (real (votes ! q ! w)) \<and>
           length result = length votes \<and> length vf = length votes \<and> length ac = length votes"
proof -
  from c obtain chosen where
    ch: "collect (map np_argmax votes) = Inr chosen"
    and res: "collect (map (getitem types) chosen) = Inr result"
    and vf: "vf = map (\<lambda>v. true_divide (real v) (real iters))
                    (map (\<lambda>(row, ii). row ! ii) (zip votes chosen))"
    and ac: "ac = map (\<lambda>((row, ii), v). true_divide (row ! ii) (real v))
                    (zip (zip corr_sum chosen) (map (\<lambda>(row, ii). row ! ii) (zip votes chosen)))"
    by (auto simp: choose_from_tally_def Let_def split: sum.splits)
  from collect_Inr [OF ch] have m1: "map np_argmax votes = map Inr chosen" .
  then have l1: "length chosen = length votes" by (metis length_map)
  from m1 q have a: "np_argmax (votes ! q) = Inr (chosen ! q)"
    by (metis l1 nth_map)
  from collect_Inr [OF res] have m2: "map (getitem types) chosen = map Inr result" .
  then have l2: "length result = length votes" using l1 by (metis length_map)
  from m2 q l1 l2 have "getitem types (chosen ! q) = Inr (result ! q)"
    by (metis nth_map)
  then have g: "chosen ! q < length types" "result ! q = types ! (chosen ! q)"
    by (auto simp: getitem_def split: if_splits)
  have v: "vf ! q = true_divide (real (votes ! q ! (chosen ! q))) (real iters)"
    using q l1 by (simp add: vf)
  have c': "ac ! q = true_divide (corr_sum ! q ! (chosen ! q)) (real (votes ! q ! (chosen ! q)))"
    using q l1 len by (simp add: ac)
  have "length vf = length votes" "length ac = length votes"
    using l1 len by (simp_all add: vf ac)
  with a g v c' l2 show ?thesis by blast
qed

lemma choose_from_tally_ok:
  assumes "list_all (\<lambda>row. row \<noteq> [] \<and> length row \<le> length types) votes"
  shows "\<exists>result vf ac. choose_from_tally votes corr_sum types iters = Inr (result, vf, ac)"
proof -
  have "\<And>row. row \<in> set votes \<Longrightarrow> \<exists>w. np_argmax row = Inr w \<and> w < length types"
  proof -
    fix row assume "row \<in> set votes"
    with assms have ne: "row \<noteq> []" and le: "length row \<le> length types"
      by (simp_all add: list_all_iff)
    from np_argmax_ok [OF ne] obtain w where w: "np_argmax row = Inr w" by blast
    from np_argmax_spec [OF w] le have "w < length types" by simp
    with w show "\<exists>w. np_argmax row = Inr w \<and> w < length types" by blast
  qed
  from zip_collect_ok [of votes np_argmax "\<lambda>w. w < length types", OF this]
  obtain chosen where ch: "collect (map np_argmax votes) = Inr chosen"
    "list_all (\<lambda>w. w < length types) chosen" by blast
  have "\<And>w. w \<in> set chosen \<Longrightarrow> \<exists>y. getitem types w = Inr y \<and> True"
    using ch(2) by (simp add: list_all_iff getitem_def)
  from zip_collect_ok [of chosen "getitem types" "\<lambda>_. True", OF this]
  obtain result where "collect (map (getitem types) chosen) = Inr result" by blast
  with ch(1) show ?thesis by (simp add: choose_from_tally_def Let_def)
qed

lemma choose_node_unfold:
  "tally_votes cnn dt sample query reference bf iters g = (Inr (votes, corr_sum), g') \<Longrightarrow>
   choose_node cnn dt sample query reference types bf iters g =
     (choose_from_tally votes corr_sum types iters, g')"
  by (simp add: choose_node_def)

text \<open>
  Claim C1. Whenever \<open>choose_node\<close> returns, the winner of every query cell is the
  reference row with the maximal vote count, the first such row when several tie
  (the summed correlation plays no part in the choice); the label returned is that
  row's reference type, the probability is its votes divided by \<open>bootstrap_iteration\<close> and
  the average correlation is its summed correlation divided by its votes.
\<close>

theorem choose_node_first_maximum:
  assumes t: "tally_votes cnn choose_int_dtype sample query_gene_data reference_gene_data
                bootstrap_factor bootstrap_iteration rng = (Inr (votes, corr_sum), rng')"
    and c: "choose_node cnn choose_int_dtype sample query_gene_data reference_gene_data
                reference_types bootstrap_factor bootstrap_iteration rng
              = (Inr (result, vote_fractions, avg_corr), rng'')"
    and q: "q < length query_gene_data"
  shows "\<exists>w. w < length (votes ! q) \<and>
           (\<forall>j<length (votes ! q). votes ! q ! j \<le> votes ! q ! w) \<and>
           (\<forall>j<w. votes ! q ! j < votes ! q ! w) \<and>
           result ! q = reference_types ! w \<and>
           vote_fractions ! q = true_divide (real (votes ! q ! w)) (real bootstrap_iteration) \<and>
           avg_corr ! q = true_divide (corr_sum ! q ! w) (real (votes ! q ! w))"
proof -
  from tally_votes_lengths [OF t] have l: "length votes = length query_gene_data"
    "length corr_sum = length votes" by simp_all
  from c choose_node_unfold [OF t] have
    "choose_from_tally votes corr_sum reference_types bootstrap_iteration
       = Inr (result, vote_fractions, avg_corr)" by simp
  from choose_from_tally_Inr [OF this l(2), of q] q l(1) obtain w where
    w: "np_argmax (votes ! q) = Inr w" "result ! q = reference_types ! w"
      "vote_fractions ! q = true_divide (real (votes ! q ! w)) (real bootstrap_iteration)"
      "avg_corr ! q = true_divide (corr_sum ! q ! w) (real (votes ! q ! w))" by auto
  from np_argmax_spec [OF w(1)] w(2,3,4) show ?thesis by blast
qed

lemma bootstrap_loop_length:
  "bootstrap_loop cnn sample query reference k m iters g = (Inr results, g') \<Longrightarrow>
   length results = iters"
proof (induction iters arbitrary: g results g')
  case 0
  then show ?case by simp
next
  case (Suc iters)
  obtain d g1 where d: "draw_markers sample g k m = (d, g1)"
    by (cases "draw_markers sample g k m")
  show ?case
  proof (cases d)
    case (Inl e)
    with d Suc.prems show ?thesis by simp
  next
    case (Inr idx)
    note idx = this
    show ?thesis
    proof (cases "take_cols idx query")
      case (Inl e)
      with d idx Suc.prems show ?thesis by simp
    next
      case (Inr bq)
      note bq = this
      show ?thesis
      proof (cases "take_cols idx reference")
        case (Inl e)
        with d idx bq Suc.prems show ?thesis by simp
      next
        case (Inr br)
        note br = this
        show ?thesis
        proof (cases "cnn br bq")
          case (Inl e)
          with d idx bq br Suc.prems show ?thesis by simp
        next
          case (Inr these)
          note these = this
          obtain r g2 where r: "bootstrap_loop cnn sample query reference k m iters g1 = (r, g2)"
            by (cases "bootstrap_loop cnn sample query reference k m iters g1")
          show ?thesis
          proof (cases r)
            case (Inl e)
            with d idx bq br these r Suc.prems show ?thesis by simp
          next
            case (Inr rest)
            with d idx bq br these r Suc.prems have "results = these # rest" "g' = g2" by simp_all
            moreover from Suc.IH [of g1 rest g2] r Inr have "length rest = iters" by simp
            ultimately show ?thesis by simp
          qed
        qed
      qed
    qed
  qed
qed

lemma cast_votes_Inr:
  assumes c: "cast_votes bits votes nn = Inr votes'"
    and v: "list_all (votes_ok nr s) votes" and s: "Suc s < 2 ^ bits"
  shows "list_all (votes_ok nr (Suc s)) votes'"
proof -
  define f :: "nat list \<times> nat \<Rightarrow> error + nat list" where
    "f = (\<lambda>(row, j). if j < length row then Inr (row[j := (row ! j + 1) mod 2 ^ bits])
                        else Inl IndexError)"
  have len: "length nn = length votes"
  proof (rule ccontr)
    assume "length nn \<noteq> length votes"
    with c show False by (simp add: cast_votes_def)
  qed
  with c have col: "collect (map f (zip votes nn)) = Inr votes'"
    by (simp add: cast_votes_def f_def)
  from collect_Inr [OF col] have m: "map f (zip votes nn) = map Inr votes'" .
  from arg_cong [OF m, of length] len have l: "length votes' = length votes" by simp
  have "\<And>i. i < length votes' \<Longrightarrow> votes_ok nr (Suc s) (votes' ! i)"
  proof -
    fix i assume i: "i < length votes'"
    with l len have iz: "i < length (zip votes nn)" by simp
    from arg_cong [OF m, of "\<lambda>xs. xs ! i"] i iz
    have "f (zip votes nn ! i) = Inr (votes' ! i)" by simp
    moreover have "zip votes nn ! i = (votes ! i, nn ! i)" using i l len by simp
    ultimately have e: "f (votes ! i, nn ! i) = Inr (votes' ! i)" by simp
    from v i l have ok: "votes_ok nr s (votes ! i)" by (simp add: list_all_length)
    then have lr: "length (votes ! i) = nr" by (simp add: votes_ok_def)
    have j: "nn ! i < length (votes ! i)"
    proof (rule ccontr)
      assume "\<not> nn ! i < length (votes ! i)"
      with e show False by (simp add: f_def)
    qed
    with e have eq: "votes' ! i = (votes ! i)[nn ! i := (votes ! i ! (nn ! i) + 1) mod 2 ^ bits]"
      by (simp add: f_def)
    from j lr have "nn ! i < nr" by simp
    from bump_row [OF ok this s] eq show "votes_ok nr (Suc s) (votes' ! i)" by simp
  qed
  then show ?thesis by (simp add: list_all_length)
qed

lemma tally_loop_sums:
  assumes "tally_loop bits votes corr_sum results = Inr (votes', corr')"
    and "list_all (votes_ok nr s) votes" and "s + length results < 2 ^ bits"
  shows "list_all (votes_ok nr (s + length results)) votes'"
  using assms
proof (induction results arbitrary: votes corr_sum s)
  case Nil
  then show ?case by simp
next
  case (Cons b results)
  obtain nn cc where b: "b = (nn, cc)" by (cases b)
  from Cons.prems(1) b obtain votes1 corr1 where
    v1: "cast_votes bits votes nn = Inr votes1"
    and rec: "tally_loop bits votes1 corr1 results = Inr (votes', corr')"
    by (auto split: sum.splits)
  have s1: "Suc s < 2 ^ bits" using Cons.prems(3) by simp
  have s2: "Suc s + length results < 2 ^ bits" using Cons.prems(3) by simp
  from Cons.IH [OF rec cast_votes_Inr [OF v1 Cons.prems(2) s1] s2] show ?case by simp
qed

lemma tally_votes_sums:
  assumes t: "tally_votes cnn choose_int_dtype sample query reference bf iters g
                = (Inr (votes, corr_sum), g')"
    and dt: "iters < 2 ^ choose_int_dtype (0, int iters)"
  shows "list_all (votes_ok (length reference) iters) votes"
proof -
  from t obtain results where
    bl: "bootstrap_loop cnn sample query reference (shape1 query)
           (bootstrap_sample_size bf (shape1 query)) iters g = (Inr results, g')"
    and tl: "tally_loop (choose_int_dtype (0, int iters))
       (replicate (length query) (replicate (length reference) 0))
       (replicate (length query) (replicate (length reference) 0)) results = Inr (votes, corr_sum)"
    by (auto simp: tally_votes_def Let_def split: prod.splits sum.splits)
  from bootstrap_loop_length [OF bl] have n: "length results = iters" .
  have v0: "list_all (votes_ok (length reference) 0)
              (replicate (length query) (replicate (length reference) 0))"
    by (simp add: list_all_iff votes_ok_def)
  from tally_loop_sums [OF tl v0] dt n show ?thesis by simp
qed

lemma winner_le_total:
  assumes "votes_ok nr s row" and "w < length row"
  shows "row ! w \<le> s"
proof -
  have "row ! w \<in> set row" using assms(2) by simp
  then have "row ! w \<le> sum_list row" using member_le_sum_list by blast
  with assms(1) show ?thesis by (simp add: votes_ok_def)
qed

lemma winner_positive:
  assumes ok: "votes_ok nr s row" and s: "1 \<le> s" and w: "np_argmax row = Inr w"
  shows "1 \<le> row ! w"
proof (rule ccontr)
  assume "\<not> 1 \<le> row ! w"
  then have z: "row ! w = 0" by simp
  from np_argmax_spec [OF w] z have "\<forall>j<length row. row ! j = 0" by simp
  then have "\<forall>x\<in>set row. x = 0" by (metis in_set_conv_nth)
  then have "sum_list row = 0" by simp
  with ok s show False by (simp add: votes_ok_def)
qed

lemma neighbors_ok_pearson: "neighbors_ok correlation_nearest_neighbors"
proof -
  have "\<And>b bs q. argmax_scan (pearson q b) 0 1 (map (pearson q) bs) < Suc (length bs)"
  proof -
    fix b bs q
    have "argmax_scan (pearson q b) 0 1 (map (pearson q) bs)
            < length (pearson q b # map (pearson q) bs)  \<and>
          (\<forall>j<length (pearson q b # map (pearson q) bs).
             (pearson q b # map (pearson q) bs) ! j
               \<le> (pearson q b # map (pearson q) bs) ! argmax_scan (pearson q b) 0 1 (map (pearson q) bs)) \<and>
          (\<forall>j<argmax_scan (pearson q b) 0 1 (map (pearson q) bs).
             (pearson q b # map (pearson q) bs) ! j
               < (pearson q b # map (pearson q) bs) ! argmax_scan (pearson q b) 0 1 (map (pearson q) bs))"
      by (rule argmax_scan_spec [where pre = "[pearson q b]"]) auto
    then show "argmax_scan (pearson q b) 0 1 (map (pearson q) bs) < Suc (length bs)" by simp
  qed
  then show ?thesis
    by (auto simp: neighbors_ok_def correlation_nearest_neighbors_def list_all_iff
        split: list.splits)
qed

lemma choose_node_returns:
  assumes cnn: "neighbors_ok cnn" and smp: "sampler_ok sample"
    and dt: "iters < 2 ^ choose_int_dtype (0, int iters)"
    and bf: "0 \<le> bf" "bf \<le> 1" and nb: "n < 2 ^ 53"
    and q: "n_columns n query" and r: "n_columns n reference" and ne: "reference \<noteq> []"
    and ty: "length types = length reference"
  shows "\<exists>result vf ac g'.
           choose_node cnn choose_int_dtype sample query reference types bf iters g
             = (Inr (result, vf, ac), g')"
proof -
  from tally_votes_ok [where choose_int_dtype = choose_int_dtype and g = g, OF cnn smp dt bf nb q r ne] obtain votes corr_sum g' where
    t: "tally_votes cnn choose_int_dtype sample query reference bf iters g
          = (Inr (votes, corr_sum), g')"
    and v: "list_all (votes_ok (length reference) iters) votes" by blast
  have "list_all (\<lambda>row. row \<noteq> [] \<and> length row \<le> length types) votes"
    using v ne ty by (auto simp: list_all_iff votes_ok_def)
  from choose_from_tally_ok [OF this, of corr_sum iters] choose_node_unfold [OF t, of types]
  show ?thesis by auto
qed

lemma demo_shape: "shape1 demo_query = 4"
  by (simp add: shape1_def demo_query_def)

lemma demo_tally_2:
  "tally_votes correlation_nearest_neighbors uint8 rotating_sample demo_query demo_reference
     (3 / 4) 2 (0::nat) = (Inr ([[1, 1]], [[1 / 2, 1]]), 2)"
  apply (simp only: tally_votes_def Let_def demo_shape bootstrap_sample_size_demo)
  apply (simp add: draw_markers_def rng_choice_def rotating_sample_def take_cols_def
      correlation_nearest_neighbors_def pearson_def std_def mean_def Let_def
      numeral_2_eq_2 upt_rec cast_votes_def add_corr_def uint8_def demo_query_def
      demo_reference_def)
  done

lemma demo_choose_2:
  "choose_node correlation_nearest_neighbors uint8 rotating_sample demo_query demo_reference
     [''a'', ''b''] (3 / 4) 2 (0::nat) = (Inr ([''a''], [Some (1 / 2)], [Some (1 / 2)]), 2)"
  by (simp add: choose_node_def demo_tally_2 choose_from_tally_def np_argmax_def getitem_def
      true_divide_def)

lemma two_mod_uint8: "Suc (Suc 0) mod Suc (Suc 0) ^ 8 = Suc (Suc 0)"
  by (simp add: numeral_2_eq_2 [symmetric])

lemma demo2_tally:
  "tally_votes correlation_nearest_neighbors uint8 rotating_sample demo_query demo_reference2
     (3 / 4) 2 (0::nat) = (Inr ([[0, 2]], [[0, 2]]), 2)"
  apply (simp only: tally_votes_def Let_def demo_shape bootstrap_sample_size_demo)
  apply (simp add: draw_markers_def rng_choice_def rotating_sample_def take_cols_def
      correlation_nearest_neighbors_def pearson_def std_def mean_def Let_def
      numeral_2_eq_2 upt_rec cast_votes_def add_corr_def uint8_def demo_query_def
      demo_reference2_def two_mod_uint8)
  done

lemma demo2_choose:
  "choose_node correlation_nearest_neighbors uint8 rotating_sample demo_query demo_reference2
     [''a'', ''b''] (3 / 4) 2 (0::nat) = (Inr ([''b''], [Some 1], [Some 1]), 2)"
  by (simp add: choose_node_def demo2_tally choose_from_tally_def np_argmax_def getitem_def
      true_divide_def)

theorem choose_node_first_maximum_witness:
  "choose_node correlation_nearest_neighbors uint8 rotating_sample demo_query demo_reference2
     [''a'', ''b''] (3 / 4) 2 (0::nat) = (Inr ([''b''], [Some 1], [Some 1]), 2) \<and>
   (\<exists>w. w < length ([0, 2 :: nat]) \<and>
      (\<forall>j<length [0, 2 :: nat]. [0, 2 :: nat] ! j \<le> [0, 2] ! w) \<and>
      (\<forall>j<w. [0, 2 :: nat] ! j < [0, 2] ! w) \<and>
      ''b'' = [''a'', ''b''] ! w \<and>
      Some (1 :: real) = true_divide (real ([0, 2] ! w)) (real 2) \<and>
      Some (1 :: real) = true_divide ([0, 2] ! w) (real ([0, 2] ! w)))"
proof -
  have q: "0 < length demo_query" by (simp add: demo_query_def)
  have "\<exists>w. w < length ([[0, 2 :: nat]] ! 0) \<and>
      (\<forall>j<length ([[0, 2 :: nat]] ! 0). [[0, 2 :: nat]] ! 0 ! j \<le> [[0, 2]] ! 0 ! w) \<and>
      (\<forall>j<w. [[0, 2 :: nat]] ! 0 ! j < [[0, 2]] ! 0 ! w) \<and>
      [''b''] ! 0 = [''a'', ''b''] ! w \<and>
      [Some (1 :: real)] ! 0 = true_divide (real ([[0, 2]] ! 0 ! w)) (real 2) \<and>
      [Some (1 :: real)] ! 0 = true_divide ([[0, 2]] ! 0 ! w) (real ([[0, 2]] ! 0 ! w))"
    by (rule choose_node_first_maximum [OF demo2_tally demo2_choose q])
  then have "\<exists>w. w < length ([0, 2 :: nat]) \<and>
      (\<forall>j<length [0, 2 :: nat]. [0, 2 :: nat] ! j \<le> [0, 2] ! w) \<and>
      (\<forall>j<w. [0, 2 :: nat] ! j < [0, 2] ! w) \<and>
      ''b'' = [''a'', ''b''] ! w \<and>
      Some (1 :: real) = true_divide (real ([0, 2] ! w)) (real 2) \<and>
      Some (1 :: real) = true_divide ([0, 2] ! w) (real ([0, 2] ! w))"
    by (simp only: nth_Cons_0)
  with demo2_choose show ?thesis by (rule conjI)
qed

theorem choose_node_tie_goes_to_first:
  "tally_votes correlation_nearest_neighbors uint8 rotating_sample demo_query demo_reference
     (3 / 4) 2 (0::nat) = (Inr ([[1, 1]], [[1 / 2, 1]]), 2) \<and>
   choose_node correlation_nearest_neighbors uint8 rotating_sample demo_query demo_reference
     [''a'', ''b''] (3 / 4) 2 (0::nat) = (Inr ([''a''], [Some (1 / 2)], [Some (1 / 2)]), 2)"
  using demo_tally_2 demo_choose_2 by simp

text \<open>
  Claim C3. Whenever the vote returns, provided the vote dtype can hold
  \<open>bootstrap_iteration\<close>: the votes of every query cell over all reference rows sum to
  \<open>bootstrap_iteration\<close>, and for \<open>bootstrap_iteration \<ge> 1\<close> the probability returned is a
  number in \<open>[0, 1]\<close>. With \<open>bootstrap_iteration = 0\<close> the probability is \<open>0 / 0\<close>, not a
  number.
\<close>

theorem vote_counts_and_probability_bounds:
  assumes t: "tally_votes cnn choose_int_dtype sample query_gene_data reference_gene_data
                bootstrap_factor bootstrap_iteration rng = (Inr (votes, corr_sum), rng')"
    and c: "choose_node cnn choose_int_dtype sample query_gene_data reference_gene_data
                reference_types bootstrap_factor bootstrap_iteration rng
              = (Inr (result, vote_fractions, avg_corr), rng'')"
    and dt: "bootstrap_iteration < 2 ^ choose_int_dtype (0, int bootstrap_iteration)"
    and q: "q < length query_gene_data"
  shows "length (votes ! q) = length reference_gene_data \<and>
         sum_list (votes ! q) = bootstrap_iteration \<and>
         (0 < bootstrap_iteration \<longrightarrow>
            (\<exists>p. vote_fractions ! q = Some p \<and> 0 \<le> p \<and> p \<le> 1)) \<and>
         (bootstrap_iteration = 0 \<longrightarrow> vote_fractions ! q = None)"
proof -
  from tally_votes_lengths [OF t] have l: "length votes = length query_gene_data"
    "length corr_sum = length votes" by simp_all
  from tally_votes_sums [OF t dt] q l(1)
  have ok: "votes_ok (length reference_gene_data) bootstrap_iteration (votes ! q)"
    by (simp add: list_all_length)
  from c choose_node_unfold [OF t] have
    "choose_from_tally votes corr_sum reference_types bootstrap_iteration
       = Inr (result, vote_fractions, avg_corr)" by simp
  from choose_from_tally_Inr [OF this l(2), of q] q l(1) obtain w where
    w: "np_argmax (votes ! q) = Inr w"
      "vote_fractions ! q = true_divide (real (votes ! q ! w)) (real bootstrap_iteration)" by auto
  from np_argmax_spec [OF w(1)] have "w < length (votes ! q)" by simp
  from winner_le_total [OF ok this] have le: "votes ! q ! w \<le> bootstrap_iteration" .
  have "0 < bootstrap_iteration \<longrightarrow> (\<exists>p. vote_fractions ! q = Some p \<and> 0 \<le> p \<and> p \<le> 1)"
  proof
    assume pos: "0 < bootstrap_iteration"
    then have "vote_fractions ! q = Some (real (votes ! q ! w) / real bootstrap_iteration)"
      using w(2) by (simp add: true_divide_def)
    moreover have "0 \<le> real (votes ! q ! w) / real bootstrap_iteration" by simp
    moreover have "real (votes ! q ! w) / real bootstrap_iteration \<le> 1" using le pos by simp
    ultimately show "\<exists>p. vote_fractions ! q = Some p \<and> 0 \<le> p \<and> p \<le> 1" by blast
  qed
  moreover have "bootstrap_iteration = 0 \<longrightarrow> vote_fractions ! q = None"
    using w(2) by (simp add: true_divide_def)
  ultimately show ?thesis using ok by (simp add: votes_ok_def)
qed

theorem vote_counts_and_probability_bounds_witness:
  "length ([[1, 1 :: nat]] ! 0) = length demo_reference \<and>
   sum_list ([[1, 1 :: nat]] ! 0) = 2 \<and>
   (\<exists>p. [Some (1 / 2 :: real)] ! 0 = Some p \<and> 0 \<le> p \<and> p \<le> 1)"
proof -
  have dt: "(2::nat) < 2 ^ uint8 (0, int 2)" by (simp add: uint8_def)
  have q: "0 < length demo_query" by (simp add: demo_query_def)
  from vote_counts_and_probability_bounds [OF demo_tally_2 demo_choose_2 dt q]
  show ?thesis by simp
qed

theorem choose_node_zero_iterations:
  "choose_node correlation_nearest_neighbors uint8 rotating_sample demo_query demo_reference
     [''a'', ''b''] (3 / 4) 0 (0::nat) = (Inr ([''a''], [None], [None]), 0)"
  by (simp add: choose_node_def tally_votes_def Let_def choose_from_tally_def np_argmax_def
      getitem_def true_divide_def demo_query_def demo_reference_def)

text \<open>
  Claim C8. For \<open>bootstrap_iteration \<ge> 1\<close>, whenever the vote returns (the vote dtype
  holding \<open>bootstrap_iteration\<close>), the winner of every query cell has at least one vote, so
  the average correlation is a quotient by a positive count.
\<close>

theorem winner_has_a_vote:
  assumes t: "tally_votes cnn choose_int_dtype sample query_gene_data reference_gene_data
                bootstrap_factor bootstrap_iteration rng = (Inr (votes, corr_sum), rng')"
    and c: "choose_node cnn choose_int_dtype sample query_gene_data reference_gene_data
                reference_types bootstrap_factor bootstrap_iteration rng
              = (Inr (result, vote_fractions, avg_corr), rng'')"
    and dt: "bootstrap_iteration < 2 ^ choose_int_dtype (0, int bootstrap_iteration)"
    and pos: "1 \<le> bootstrap_iteration"
    and q: "q < length query_gene_data"
  shows "\<exists>w. np_argmax (votes ! q) = Inr w \<and> 1 \<le> votes ! q ! w \<and>
           avg_corr ! q = Some (corr_sum ! q ! w / real (votes ! q ! w))"
proof -
  from tally_votes_lengths [OF t] have l: "length votes = length query_gene_data"
    "length corr_sum = length votes" by simp_all
  from tally_votes_sums [OF t dt] q l(1)
  have ok: "votes_ok (length reference_gene_data) bootstrap_iteration (votes ! q)"
    by (simp add: list_all_length)
  from c choose_node_unfold [OF t] have
    "choose_from_tally votes corr_sum reference_types bootstrap_iteration
       = Inr (result, vote_fractions, avg_corr)" by simp
  from choose_from_tally_Inr [OF this l(2), of q] q l(1) obtain w where
    w: "np_argmax (votes ! q) = Inr w"
      "avg_corr ! q = true_divide (corr_sum ! q ! w) (real (votes ! q ! w))" by auto
  from winner_positive [OF ok pos w(1)] have v: "1 \<le> votes ! q ! w" .
  then have "avg_corr ! q = Some (corr_sum ! q ! w / real (votes ! q ! w))"
    using w(2) by (simp add: true_divide_def)
  with w(1) v show ?thesis by blast
qed

theorem winner_has_a_vote_witness:
  "\<exists>w. np_argmax ([[0, 2 :: nat]] ! 0) = Inr w \<and> 1 \<le> [[0, 2 :: nat]] ! 0 ! w \<and>
        [Some (1 :: real)] ! 0 = Some ([[0, 2]] ! 0 ! w / real ([[0, 2]] ! 0 ! w))"
proof -
  have dt: "(2::nat) < 2 ^ uint8 (0, int 2)" by (simp add: uint8_def)
  have q: "0 < length demo_query" by (simp add: demo_query_def)
  from winner_has_a_vote [OF demo2_tally demo2_choose dt _ q] show ?thesis by simp
qed

section \<open>Properties of the reference matrix\<close>

lemma fold_update_keys:
  "fst ` set (fold (\<lambda>leaf d'. AList.update leaf child d') leaves d) = set leaves \<union> fst ` set d"
  by (induction leaves arbitrary: d) (auto simp: dom_update)

lemma fold_update_distinct:
  "distinct (map fst d) \<Longrightarrow>
   distinct (map fst (fold (\<lambda>leaf d'. AList.update leaf child d') leaves d))"
  by (induction leaves arbitrary: d) (auto simp: distinct_update)

lemma fold_update_map_of:
  "map_of (fold (\<lambda>leaf d'. AList.update leaf child d') leaves d) k =
     (if k \<in> set leaves then Some child else map_of d k)"
  by (induction leaves arbitrary: d) (auto simp: update_conv')

lemma fill_keys:
  "fst ` set (fill cl d) = (\<Union>p\<in>set cl. set (snd p)) \<union> fst ` set d"
  unfolding fill_def
proof (induction cl arbitrary: d)
  case Nil
  show ?case by simp
next
  case (Cons p cl)
  obtain child leaves where p: "p = (child, leaves)" by (cases p)
  show ?case using Cons.IH [of "fold (\<lambda>leaf d'. AList.update leaf child d') leaves d"]
    by (auto simp: p fold_update_keys)
qed

lemma fill_distinct: "distinct (map fst d) \<Longrightarrow> distinct (map fst (fill cl d))"
  unfolding fill_def
proof (induction cl arbitrary: d)
  case Nil
  then show ?case by simp
next
  case (Cons p cl)
  obtain child leaves where p: "p = (child, leaves)" by (cases p)
  show ?case using Cons.IH [OF fold_update_distinct [OF Cons.prems, of child leaves]]
    by (simp add: p)
qed

lemma fill_map_of:
  "map_of (fill cl d) k = Some child \<Longrightarrow>
   (\<exists>leaves. (child, leaves) \<in> set cl \<and> k \<in> set leaves) \<or> map_of d k = Some child"
  unfolding fill_def
proof (induction cl arbitrary: d)
  case Nil
  then show ?case by simp
next
  case (Cons p cl)
  obtain c leaves where p: "p = (c, leaves)" by (cases p)
  from Cons.prems have
    "map_of (fold (\<lambda>(child, leaves) d. fold (\<lambda>leaf d'. AList.update leaf child d') leaves d) cl
        (fold (\<lambda>leaf d'. AList.update leaf c d') leaves d)) k = Some child"
    by (simp add: p)
  from Cons.IH [OF this] show ?case
    by (auto simp: p fold_update_map_of split: if_splits)
qed

lemma collect_map_Inr:
  assumes "collect (map f xs) = Inr ys"
  shows "length ys = length xs \<and> (\<forall>i<length xs. f (xs ! i) = Inr (ys ! i))"
proof -
  from collect_Inr [OF assms] have m: "map f xs = map Inr ys" .
  from arg_cong [OF m, of length] have l: "length ys = length xs" by simp
  have "\<forall>i<length xs. f (xs ! i) = Inr (ys ! i)"
  proof (intro allI impI)
    fix i assume i: "i < length xs"
    from arg_cong [OF m, of "\<lambda>zs. zs ! i"] i l show "f (xs ! i) = Inr (ys ! i)" by simp
  qed
  with l show ?thesis by simp
qed

lemma assemble_query_data_rows:
  assumes a: "assemble_query_data full_query_data mean_profile_lookup taxonomy_tree
                marker_cache parent_node = Inr r"
  shows "\<exists>immediate_children child_level reference_markers query_markers leaves.
           immediate_children_of taxonomy_tree parent_node = Inr (immediate_children, child_level) \<and>
           marker_cache parent_node = Some (reference_markers, query_markers) \<and>
           sorted leaves \<and> distinct leaves \<and>
           set leaves = {leaf. \<exists>child ls. child \<in> set immediate_children \<and>
                           convert_tree_to_leaves taxonomy_tree child_level child = Inr ls \<and>
                           leaf \<in> set ls} \<and>
           length (reference_data_item r) = length leaves \<and>
           length (reference_types_item r) = length leaves \<and>
           (\<forall>i<length leaves.
              reference_types_item r ! i \<in> set immediate_children \<and>
              (\<exists>ls. convert_tree_to_leaves taxonomy_tree child_level (reference_types_item r ! i) = Inr ls \<and>
                    leaves ! i \<in> set ls) \<and>
              (\<exists>this_mu. mean_profile_lookup (leaves ! i) = Some this_mu \<and>
                    reference_data_item r ! i = map (\<lambda>j. this_mu ! j) reference_markers))"
proof -
  from a obtain kids child_level where
    ic: "immediate_children_of taxonomy_tree parent_node = Inr (kids, child_level)"
    by (auto simp: assemble_query_data_def split: sum.splits)
  let ?g = "\<lambda>child. case convert_tree_to_leaves taxonomy_tree child_level child of
                      Inl e \<Rightarrow> Inl e | Inr leaves \<Rightarrow> Inr (child, leaves)"
  from a ic obtain cl where cl: "collect (map ?g (sort kids)) = Inr cl"
    by (auto simp: assemble_query_data_def Let_def split: sum.splits)
  from a ic cl obtain rm qm where mc: "marker_cache parent_node = Some (rm, qm)"
    by (auto simp: assemble_query_data_def Let_def split: sum.splits option.splits)
  define d where "d = leaf_to_type_of cl"
  define leaves where "leaves = sort (map fst d)"
  let ?h = "\<lambda>child. case mean_profile_lookup child of
                      None \<Rightarrow> Inl KeyError | Some this_mu \<Rightarrow> fancy_index this_mu rm"
  from a ic cl mc obtain rd where rd: "collect (map ?h leaves) = Inr rd"
    and r: "reference_data_item r = rd"
           "reference_types_item r = map (\<lambda>child. the (map_of d child)) leaves"
    by (auto simp: assemble_query_data_def Let_def d_def leaves_def split: sum.splits)
  from collect_map_Inr [OF cl] have lcl: "length cl = length (sort kids)"
    and gcl: "\<forall>i<length (sort kids). ?g (sort kids ! i) = Inr (cl ! i)" by simp_all
  have cl_sound: "\<And>child ls. (child, ls) \<in> set cl \<Longrightarrow>
      child \<in> set kids \<and> convert_tree_to_leaves taxonomy_tree child_level child = Inr ls"
  proof -
    fix child ls assume "(child, ls) \<in> set cl"
    then obtain i where i: "i < length cl" "cl ! i = (child, ls)" by (auto simp: in_set_conv_nth)
    with gcl lcl have "?g (sort kids ! i) = Inr (child, ls)" by simp
    then have "sort kids ! i = child"
      "convert_tree_to_leaves taxonomy_tree child_level child = Inr ls"
      by (auto split: sum.splits)
    moreover have "sort kids ! i \<in> set kids"
    proof -
      have "i < length (sort kids)" using i(1) lcl by simp
      then have "sort kids ! i \<in> set (sort kids)" by (rule nth_mem)
      then show ?thesis by simp
    qed
    ultimately show "child \<in> set kids \<and>
        convert_tree_to_leaves taxonomy_tree child_level child = Inr ls" by simp
  qed
  have cl_complete: "\<And>child ls. child \<in> set kids \<Longrightarrow>
      convert_tree_to_leaves taxonomy_tree child_level child = Inr ls \<Longrightarrow> (child, ls) \<in> set cl"
  proof -
    fix child ls assume c: "child \<in> set kids"
      and e: "convert_tree_to_leaves taxonomy_tree child_level child = Inr ls"
    from c have "child \<in> set (sort kids)" by simp
    then obtain i where i: "i < length (sort kids)" "sort kids ! i = child"
      unfolding in_set_conv_nth by blast
    with gcl e have "cl ! i = (child, ls)" by auto
    with i(1) lcl show "(child, ls) \<in> set cl" by (metis nth_mem)
  qed
  have keys: "set leaves = (\<Union>p\<in>set cl. set (snd p))"
    using fill_keys [of cl "[]"] by (simp add: leaves_def d_def leaf_to_type_of_def)
  have s1: "sorted leaves" by (simp add: leaves_def)
  have s2: "distinct leaves"
    using fill_distinct [of "[]" cl] by (simp add: leaves_def d_def leaf_to_type_of_def)
  have s3: "set leaves = {leaf. \<exists>child ls. child \<in> set kids \<and>
                convert_tree_to_leaves taxonomy_tree child_level child = Inr ls \<and> leaf \<in> set ls}"
  proof (intro set_eqI iffI)
    fix leaf assume "leaf \<in> set leaves"
    with keys obtain p where p: "p \<in> set cl" "leaf \<in> set (snd p)" by auto
    obtain child ls where pe: "p = (child, ls)" by (cases p)
    from cl_sound [of child ls] p pe
    show "leaf \<in> {leaf. \<exists>child ls. child \<in> set kids \<and>
                convert_tree_to_leaves taxonomy_tree child_level child = Inr ls \<and> leaf \<in> set ls}"
      by auto
  next
    fix leaf assume "leaf \<in> {leaf. \<exists>child ls. child \<in> set kids \<and>
                convert_tree_to_leaves taxonomy_tree child_level child = Inr ls \<and> leaf \<in> set ls}"
    then obtain child ls where c: "child \<in> set kids"
      "convert_tree_to_leaves taxonomy_tree child_level child = Inr ls" "leaf \<in> set ls" by auto
    from cl_complete [OF c(1,2)] c(3) have "\<exists>p\<in>set cl. leaf \<in> set (snd p)" by force
    with keys show "leaf \<in> set leaves" by simp
  qed
  from collect_map_Inr [OF rd] have lrd: "length rd = length leaves"
    and hrd: "\<forall>i<length leaves. ?h (leaves ! i) = Inr (rd ! i)" by simp_all
  have rows: "\<forall>i<length leaves.
      reference_types_item r ! i \<in> set kids \<and>
      (\<exists>ls. convert_tree_to_leaves taxonomy_tree child_level (reference_types_item r ! i) = Inr ls \<and>
            leaves ! i \<in> set ls) \<and>
      (\<exists>this_mu. mean_profile_lookup (leaves ! i) = Some this_mu \<and>
            reference_data_item r ! i = map (\<lambda>j. this_mu ! j) rm)"
  proof (intro allI impI)
    fix i assume i: "i < length leaves"
    then have "leaves ! i \<in> set leaves" by simp
    then have "leaves ! i \<in> fst ` set d" by (simp add: leaves_def)
    then obtain child where mo: "map_of d (leaves ! i) = Some child"
      by (metis domD dom_map_of_conv_image_fst)
    then have "map_of (fill cl []) (leaves ! i) = Some child"
      by (simp add: d_def leaf_to_type_of_def)
    from fill_map_of [OF this] obtain ls where ls: "(child, ls) \<in> set cl" "leaves ! i \<in> set ls"
      by auto
    have t: "reference_types_item r ! i = child" using i mo by (simp add: r(2))
    from hrd i have "?h (leaves ! i) = Inr (rd ! i)" by simp
    then obtain this_mu where mu: "mean_profile_lookup (leaves ! i) = Some this_mu"
      "fancy_index this_mu rm = Inr (rd ! i)" by (auto split: option.splits)
    from mu(2) have "rd ! i = map (\<lambda>j. this_mu ! j) rm"
      by (auto simp: fancy_index_def split: if_splits)
    with cl_sound [OF ls(1)] ls(2) t mu(1) r(1)
    show "reference_types_item r ! i \<in> set kids \<and>
      (\<exists>ls. convert_tree_to_leaves taxonomy_tree child_level (reference_types_item r ! i) = Inr ls \<and>
            leaves ! i \<in> set ls) \<and>
      (\<exists>this_mu. mean_profile_lookup (leaves ! i) = Some this_mu \<and>
            reference_data_item r ! i = map (\<lambda>j. this_mu ! j) rm)" by auto
  qed
  have l1: "length (reference_data_item r) = length leaves" using lrd r(1) by simp
  have l2: "length (reference_types_item r) = length leaves" by (simp add: r(2))
  show ?thesis
    by (rule exI [of _ kids], rule exI [of _ child_level], rule exI [of _ rm],
        rule exI [of _ qm], rule exI [of _ leaves])
       (intro conjI ic mc s1 s2 s3 l1 l2 rows)
qed

text \<open>
  Claim C2. Whenever \<open>assemble_query_data\<close> returns for a parent node, the reference
  matrix has one row per leaf descending from the immediate children of the parent, the
  leaves in sorted order without repetition; each row is the mean profile of its own
  leaf at the reference markers of the parent (no averaging over leaves), and
  \<open>reference_types\<close> labels the row with the immediate child the leaf descends from.
\<close>

theorem assemble_query_data_row_per_leaf:
  assumes a: "assemble_query_data full_query_data mean_profile_lookup taxonomy_tree
                marker_cache parent_node = Inr r"
  shows "\<exists>immediate_children child_level reference_markers query_markers leaves.
           immediate_children_of taxonomy_tree parent_node = Inr (immediate_children, child_level) \<and>
           marker_cache parent_node = Some (reference_markers, query_markers) \<and>
           sorted leaves \<and> distinct leaves \<and>
           set leaves = {leaf. \<exists>child ls. child \<in> set immediate_children \<and>
                           convert_tree_to_leaves taxonomy_tree child_level child = Inr ls \<and>
                           leaf \<in> set ls} \<and>
           length (reference_data_item r) = length leaves \<and>
           length (reference_types_item r) = length leaves \<and>
           (\<forall>i<length leaves.
              reference_types_item r ! i \<in> set immediate_children \<and>
              (\<exists>ls. convert_tree_to_leaves taxonomy_tree child_level (reference_types_item r ! i) = Inr ls \<and>
                    leaves ! i \<in> set ls) \<and>
              (\<exists>this_mu. mean_profile_lookup (leaves ! i) = Some this_mu \<and>
                    reference_data_item r ! i = map (\<lambda>j. this_mu ! j) reference_markers))"
  by (rule assemble_query_data_rows [OF a])

lemma fixture_class_B:
  "assemble_query_data [[5, 6, 7]] mean_lookup_fixture tree_fixture marker_cache_fixture
     (Some (''class'', ''B'')) =
   Inr \<lparr>query_data_item = [[5, 7]],
        reference_data_item = [[10, 1], [30, 3], [40, 4], [70, 7], [80, 8], [90, 9]],
        reference_types_item = [''aa'', ''aa'', ''aa'', ''ee'', ''dd'', ''ee'']\<rparr>"
  by (simp add: assemble_query_data_def immediate_children_of_def tree_fixture_def
      convert_tree_to_leaves_def leaf_to_type_of_def fill_def marker_cache_fixture_def
      mean_lookup_fixture_def take_cols_def fancy_index_def Let_def)

lemma fixture_subclass_cc:
  "assemble_query_data [[5, 6, 7]] mean_lookup_fixture tree_fixture marker_cache_fixture
     (Some (''subclass'', ''cc'')) = Inr subclass_cc_result"
  by (simp add: subclass_cc_result_def assemble_query_data_def immediate_children_of_def tree_fixture_def
      convert_tree_to_leaves_def leaf_to_type_of_def fill_def marker_cache_fixture_def
      mean_lookup_fixture_def take_cols_def fancy_index_def Let_def)

theorem assemble_query_data_row_per_leaf_witness:
  "\<exists>immediate_children child_level reference_markers query_markers leaves.
      immediate_children_of tree_fixture (Some (''subclass'', ''cc''))
        = Inr (immediate_children, child_level) \<and>
      marker_cache_fixture (Some (''subclass'', ''cc'')) = Some (reference_markers, query_markers) \<and>
      sorted leaves \<and> distinct leaves \<and>
      set leaves = {leaf. \<exists>child ls. child \<in> set immediate_children \<and>
                      convert_tree_to_leaves tree_fixture child_level child = Inr ls \<and>
                      leaf \<in> set ls} \<and>
      length (reference_data_item subclass_cc_result) = length leaves \<and>
      length (reference_types_item subclass_cc_result) = length leaves \<and>
      (\<forall>i<length leaves.
         reference_types_item subclass_cc_result ! i \<in> set immediate_children \<and>
         (\<exists>ls. convert_tree_to_leaves tree_fixture child_level
                  (reference_types_item subclass_cc_result ! i) = Inr ls \<and>
               leaves ! i \<in> set ls) \<and>
         (\<exists>this_mu. mean_lookup_fixture (leaves ! i) = Some this_mu \<and>
               reference_data_item subclass_cc_result ! i = map (\<lambda>j. this_mu ! j) reference_markers))"
  by (rule assemble_query_data_row_per_leaf [OF fixture_subclass_cc])

theorem assemble_query_data_six_rows_three_children:
  "immediate_children_of tree_fixture (Some (''class'', ''B''))
     = Inr ([''aa'', ''dd'', ''ee''], ''subclass'') \<and>
   assemble_query_data [[5, 6, 7]] mean_lookup_fixture tree_fixture marker_cache_fixture
     (Some (''class'', ''B'')) =
   Inr \<lparr>query_data_item = [[5, 7]],
        reference_data_item = [[10, 1], [30, 3], [40, 4], [70, 7], [80, 8], [90, 9]],
        reference_types_item = [''aa'', ''aa'', ''aa'', ''ee'', ''dd'', ''ee'']\<rparr>"
proof -
  have "immediate_children_of tree_fixture (Some (''class'', ''B''))
     = Inr ([''aa'', ''dd'', ''ee''], ''subclass'')"
    by (simp add: immediate_children_of_def tree_fixture_def)
  with fixture_class_B show ?thesis by simp
qed

section \<open>Properties of the hierarchical assignment\<close>

section \<open>Properties of the hierarchical walk\<close>





lemma store_results_indices:
  "store_results lv items res = Inr res' \<Longrightarrow> i \<in> fst ` set items \<Longrightarrow> i < length res"
proof (induction items arbitrary: res)
  case Nil
  then show ?case by simp
next
  case (Cons it items)
  obtain i0 t p c where it: "it = (i0, t, p, c)" by (cases it) auto
  show ?case
  proof (cases "i0 < length res")
    case True
    let ?res = "res[i0 := (res ! i0)(lv \<mapsto>
          \<lparr>assignment_item = t, bootstrapping_probability_item = p,
           avg_correlation_item = c\<rparr>)]"
    from True Cons.prems(1) it have s: "store_results lv items ?res = Inr res'" by simp
    show ?thesis
    proof (cases "i = i0")
      case True
      with \<open>i0 < length res\<close> show ?thesis by simp
    next
      case False
      with Cons.prems(2) it have "i \<in> fst ` set items" by auto
      from Cons.IH [OF s this] show ?thesis by simp
    qed
  next
    case False
    with Cons.prems it show ?thesis by simp
  qed
qed











































end
